theory Spec2Isabelle
  imports Main "HOL-Library.AList"
begin

section \<open>Shared data model of the weather daemon\<close>

text \<open>
  The development follows \<^verbatim>\<open>weather-daemon.py\<close> (class \<^verbatim>\<open>WeatherDaemon\<close>, the variant
  with the offline queue, the sender thread and the watchdog) and the parser of
  \<^verbatim>\<open>weather_daemon.py\<close> (class \<^verbatim>\<open>WeatherStationDaemon\<close>).

  Exceptions are values of \<open>py_exn\<close>. Times (\<^verbatim>\<open>datetime.now()\<close>, \<^verbatim>\<open>datetime.utcnow()\<close>)
  and durations are integers in one fixed unit; every clock reading the code makes is an
  argument of the function that makes it. Everything a method does to the outside world
  (log lines, sleeps, connection attempts, writes to InfluxDB, leaving the process) is
  appended, in program order, to the \<open>trace\<close> field of the daemon state.
\<close>

datatype py_exn =
    ValueError
  | SerialException
  | UnicodeDecodeError
  | QueueEmpty
  | QueueFull
  | OtherException

datatype log_level = DEBUG | INFO | WARNING | ERROR

datatype msg =
    ConnectedSerial
  | SerialAttemptFailed nat
  | SerialUnexpectedError
  | SerialGaveUp
  | ConnectedInflux
  | InfluxAttemptFailed nat
  | InfluxGaveUp
  | DataSent
  | SendFailed
  | QueueFullDropOldest
  | QueuedDataPoint nat
  | QueueFailed
  | QueueFullDropFailed
  | SentQueued nat
  | SenderError
  | WatchdogError
  | NoDataReceived
  | ReconnectingSerial
  | MainUnresponsive
  | ForcingRestart
  | HealthCheck nat
  | SerialLost
  | ReconnectingInflux
  | Received
  | Parsed
  | SendFailedQueuing
  | NotParsed
  | SerialError
  | ReconnectFailed
  | DecodeError
  | TooManyErrors int
  | UnexpectedError
  | SendingRemaining nat
  | FinalSendError
  | CleanupStart
  | SerialClosed
  | InfluxClosed
  | CleanupComplete

datatype 'r event =
    Log log_level msg
  | Sleep int
  | SerialOpen
  | InfluxOpen
  | Send 'r int bool
  | Exit int

text \<open>
  \<open>Sleep d\<close> is a completed \<^verbatim>\<open>time.sleep(d)\<close>.
  \<open>Send r ts ok\<close>: \<^verbatim>\<open>send_to_influxdb\<close> ran for the reading \<open>r\<close>, the time of its point
  was \<open>ts\<close>, and it returned \<open>ok\<close>. \<open>SerialOpen\<close> is one call of \<^verbatim>\<open>serial.Serial(...)\<close>,
  \<open>InfluxOpen\<close> one construction and ping of an \<^verbatim>\<open>InfluxDBClient\<close>. \<open>Exit c\<close> is
  \<^verbatim>\<open>os._exit(c)\<close>.
\<close>

record config =
  max_serial_retries :: int
  max_influx_retries :: int
  serial_retry_delay :: int
  influx_retry_delay :: int
  watchdog_timeout :: int
  data_timeout :: int
  health_check_interval :: int
  queue_flush_interval :: int
  read_interval :: int
  restart_on_hang :: bool

text \<open>
  The fields of \<^verbatim>\<open>WeatherDaemon\<close> that the modelled methods read or write.
  \<open>serial_connection\<close> is \<open>None\<close> for Python's \<^verbatim>\<open>None\<close> and \<open>Some b\<close> for a
  \<^verbatim>\<open>serial.Serial\<close> object whose \<^verbatim>\<open>is_open\<close> is \<open>b\<close>; \<open>influx_client\<close> tells whether the
  attribute holds a client object. \<open>data_queue\<close> is the content of the
  \<^verbatim>\<open>queue.Queue\<close>, oldest item first. \<open>consecutive_errors\<close> is the local variable of
  \<^verbatim>\<open>run\<close>; \<open>exited\<close> is set once \<^verbatim>\<open>os._exit\<close> has been called.
\<close>

record 'r daemon =
  running :: bool
  serial_connection :: "bool option"
  influx_client :: bool
  serial_retry_count :: int
  influx_retry_count :: int
  last_data_time :: int
  last_heartbeat :: int
  data_queue :: "('r \<times> int) list"
  consecutive_errors :: int
  exited :: bool
  trace :: "'r event list"

definition emit :: "'r event list \<Rightarrow> 'r daemon \<Rightarrow> 'r daemon" where
  "emit es s = s\<lparr>trace := trace s @ es\<rparr>"

text \<open>
  \<^verbatim>\<open>time.sleep(secs)\<close> raises \<^verbatim>\<open>ValueError\<close> for a negative argument and returns after
  the sleep otherwise. A method that may be left by an exception returns the exception,
  if any, with the state reached.
\<close>

definition py_sleep :: "int \<Rightarrow> 'r daemon \<Rightarrow> py_exn option \<times> 'r daemon" where
  "py_sleep secs s = (if secs < 0 then (Some ValueError, s) else (None, emit [Sleep secs] s))"

definition serial_is_open :: "'r daemon \<Rightarrow> bool" where
  "serial_is_open s = (serial_connection s = Some True)"

section \<open>The bounded queue\<close>

text \<open>
  \<^verbatim>\<open>queue.Queue(maxsize)\<close> of the standard library: \<^verbatim>\<open>full()\<close> is
  \<^verbatim>\<open>0 < maxsize <= qsize()\<close> (a \<^verbatim>\<open>maxsize\<close> of zero or less means unbounded),
  \<^verbatim>\<open>get_nowait\<close> raises \<^verbatim>\<open>Empty\<close> on an empty queue and \<^verbatim>\<open>put_nowait\<close> raises
  \<^verbatim>\<open>Full\<close> on a full one. The daemon creates its queue with \<^verbatim>\<open>maxsize=1000\<close>.
\<close>

definition queue_full :: "int \<Rightarrow> 'a list \<Rightarrow> bool" where
  "queue_full maxsize q = (0 < maxsize \<and> maxsize \<le> int (length q))"

definition get_nowait :: "'a list \<Rightarrow> py_exn + ('a \<times> 'a list)" where
  "get_nowait q = (case q of [] \<Rightarrow> Inl QueueEmpty | x # xs \<Rightarrow> Inr (x, xs))"

definition put_nowait :: "int \<Rightarrow> 'a list \<Rightarrow> 'a \<Rightarrow> py_exn + 'a list" where
  "put_nowait maxsize q x = (if queue_full maxsize q then Inl QueueFull else Inr (q @ [x]))"

definition data_queue_maxsize :: int where
  "data_queue_maxsize = 1000"

text \<open>
  \<^verbatim>\<open>WeatherDaemon.queue_data(weather_data, timestamp=None)\<close>. \<open>utcnow\<close> is what
  \<^verbatim>\<open>datetime.utcnow()\<close> returns when the method is entered; it is used only when no
  timestamp is passed. Any exception inside the \<^verbatim>\<open>try\<close> is logged and swallowed.
\<close>

definition queue_data :: "int \<Rightarrow> int \<Rightarrow> 'r \<Rightarrow> int option \<Rightarrow> 'r daemon \<Rightarrow> 'r daemon" where
  "queue_data maxsize utcnow weather_data timestamp s =
    (let ts = (case timestamp of None \<Rightarrow> utcnow | Some t \<Rightarrow> t);
         s1 = (if queue_full maxsize (data_queue s) then
                 (case get_nowait (data_queue s) of
                    Inr (old_data, q') \<Rightarrow>
                      emit [Log WARNING QueueFullDropOldest] (s\<lparr>data_queue := q'\<rparr>)
                  | Inl e \<Rightarrow> s)
               else s)
     in case put_nowait maxsize (data_queue s1) (weather_data, ts) of
          Inr q' \<Rightarrow> emit [Log DEBUG (QueuedDataPoint (length q'))] (s1\<lparr>data_queue := q'\<rparr>)
        | Inl e \<Rightarrow> emit [Log ERROR QueueFailed] s1)"

text \<open>A run of calls \<^verbatim>\<open>queue_data(r)\<close>, one per pair (reading, clock reading at the call).\<close>

fun enqueue_all :: "int \<Rightarrow> ('r \<times> int) list \<Rightarrow> 'r daemon \<Rightarrow> 'r daemon" where
  "enqueue_all maxsize [] s = s"
| "enqueue_all maxsize ((r, t) # items) s =
     enqueue_all maxsize items (queue_data maxsize t r None s)"

section \<open>Strings\<close>

text \<open>
  A line is what \<^verbatim>\<open>readline().decode('utf-8').strip()\<close> returns, a Python \<^verbatim>\<open>str\<close>. A
  \<open>char\<close> stands for a code point below 256. \<open>py_isspace\<close> is \<^verbatim>\<open>str.isspace\<close> on one
  such character (the characters removed by \<^verbatim>\<open>str.strip()\<close> and matched by \<^verbatim>\<open>\s\<close>),
  \<open>py_isdigit\<close> is what \<^verbatim>\<open>\d\<close> matches, \<open>py_lower\<close> is \<^verbatim>\<open>str.lower\<close>.
\<close>

definition py_isspace :: "char \<Rightarrow> bool" where
  "py_isspace c = (c \<in> set [CHR 0x09, CHR 0x0A, CHR 0x0B, CHR 0x0C, CHR 0x0D,
     CHR 0x1C, CHR 0x1D, CHR 0x1E, CHR 0x1F, CHR 0x20, CHR 0x85, CHR 0xA0])"

definition py_isdigit :: "char \<Rightarrow> bool" where
  "py_isdigit c = (c \<in> set ''0123456789'')"

definition py_lower_char :: "char \<Rightarrow> char" where
  "py_lower_char c =
     (let n = (of_char c :: nat) in
      if (65 \<le> n \<and> n \<le> 90) \<or> (192 \<le> n \<and> n \<le> 222 \<and> n \<noteq> 215)
      then char_of (n + 32) else c)"

definition py_lower :: "string \<Rightarrow> string" where
  "py_lower s = map py_lower_char s"

definition py_strip :: "string \<Rightarrow> string" where
  "py_strip s = rev (dropWhile py_isspace (rev (dropWhile py_isspace s)))"

text \<open>\<^verbatim>\<open>s.split(sep)\<close> for a separator of one character.\<close>

fun split_on :: "char \<Rightarrow> string \<Rightarrow> string list" where
  "split_on sep [] = [[]]"
| "split_on sep (c # cs) =
     (if c = sep then [] # split_on sep cs
      else (case split_on sep cs of
              w # ws \<Rightarrow> (c # w) # ws
            | [] \<Rightarrow> [[c]]))"

section \<open>The token parser of \<^verbatim>\<open>weather_daemon.py\<close>\<close>

text \<open>
  \<^verbatim>\<open>WeatherStationDaemon.parse_weather_data\<close>; \<^verbatim>\<open>weather_collector.py\<close> and
  \<^verbatim>\<open>rotse_weatherd/main.py\<close> hold the same loop. The built-in \<^verbatim>\<open>float\<close> is the
  parameter \<open>py_float\<close>: \<open>Inr v\<close> when the conversion gives \<open>v\<close>, \<open>Inl e\<close> when it raises
  \<open>e\<close>. The dictionary is an association list in insertion order.
  For a pair \<^verbatim>\<open>key, value = pair.split(':', 1)\<close>, \<open>pair_key\<close> is \<^verbatim>\<open>key.strip()\<close> and
  \<open>pair_value\<close> is \<^verbatim>\<open>value.strip()\<close>.
\<close>

definition field_mapping :: "(string \<times> string) list" where
  "field_mapping = [(''T'', ''temperature''), (''H'', ''humidity''),
                    (''P'', ''pressure''), (''WS'', ''windspeed'')]"

definition field_name :: "string \<Rightarrow> string" where
  "field_name key = (case map_of field_mapping key of Some f \<Rightarrow> f | None \<Rightarrow> py_lower key)"

definition pair_key :: "string \<Rightarrow> string" where
  "pair_key pair = py_strip (takeWhile (\<lambda>c. c \<noteq> CHR '':'') pair)"

definition pair_value :: "string \<Rightarrow> string" where
  "pair_value pair = py_strip (drop 1 (dropWhile (\<lambda>c. c \<noteq> CHR '':'') pair))"

definition parse_pair ::
  "(string \<Rightarrow> py_exn + 'v) \<Rightarrow> string \<Rightarrow> (string \<times> 'v) list \<Rightarrow> py_exn + (string \<times> 'v) list" where
  "parse_pair py_float pair data_dict =
     (if CHR '':'' \<in> set pair then
        (case py_float (pair_value pair) of
           Inr v \<Rightarrow> Inr (AList.update (field_name (pair_key pair)) v data_dict)
         | Inl e \<Rightarrow> if e = ValueError then Inr data_dict else Inl e)
      else Inr data_dict)"

fun parse_pairs ::
  "(string \<Rightarrow> py_exn + 'v) \<Rightarrow> string list \<Rightarrow> (string \<times> 'v) list \<Rightarrow> py_exn + (string \<times> 'v) list" where
  "parse_pairs py_float [] data_dict = Inr data_dict"
| "parse_pairs py_float (pair # pairs) data_dict =
     (case parse_pair py_float pair data_dict of
        Inl e \<Rightarrow> Inl e
      | Inr d \<Rightarrow> parse_pairs py_float pairs d)"

definition WeatherStationDaemon_parse_weather_data ::
  "(string \<Rightarrow> py_exn + 'v) \<Rightarrow> string \<Rightarrow> py_exn + (string \<times> 'v) list option" where
  "WeatherStationDaemon_parse_weather_data py_float data_line =
     (let line = py_strip data_line in
      if line = [] then Inr None
      else (case parse_pairs py_float (split_on CHR '' '' line) [] of
              Inr data_dict \<Rightarrow> Inr (if data_dict = [] then None else Some data_dict)
            | Inl e \<Rightarrow> Inr None))"

section \<open>The pattern parser of \<^verbatim>\<open>weather-daemon.py\<close>\<close>

text \<open>
  \<^verbatim>\<open>WeatherDaemon.parse_weather_data\<close> searches the line for
  \<^verbatim>\<open>T:(\d+\.?\d*)\s+H:(\d+\.?\d*)\s+P:(\d+\.?\d*)\s+WS:(\d+\.?\d*)\<close>.
  \<open>match_at\<close> matches the pattern at the start of a string, taking the longest run at
  every repetition. For this pattern that is what the backtracking matcher finds: a run
  of digits is followed by \<^verbatim>\<open>\.?\<close>, \<^verbatim>\<open>\d*\<close> or \<^verbatim>\<open>\s+\<close>, a run of spaces by a letter, and
  a digit, a dot, a space and a letter are different characters, so giving back part of a
  run never lets the rest of the pattern match. \<open>re_search\<close> tries every start position
  from the left, as \<^verbatim>\<open>re.search\<close> does.
\<close>

definition match_lit :: "string \<Rightarrow> string \<Rightarrow> string option" where
  "match_lit lit s = (if take (length lit) s = lit then Some (drop (length lit) s) else None)"

definition match_number :: "string \<Rightarrow> (string \<times> string) option" where
  "match_number s =
     (let ds = takeWhile py_isdigit s; r = dropWhile py_isdigit s in
      if ds = [] then None
      else (case r of
              [] \<Rightarrow> Some (ds, [])
            | c # r' \<Rightarrow>
                if c = CHR ''.''
                then Some (ds @ CHR ''.'' # takeWhile py_isdigit r', dropWhile py_isdigit r')
                else Some (ds, r)))"

definition match_spaces :: "string \<Rightarrow> string option" where
  "match_spaces s =
     (if takeWhile py_isspace s = [] then None else Some (dropWhile py_isspace s))"

definition match_field :: "string \<Rightarrow> string \<Rightarrow> (string \<times> string) option" where
  "match_field lit s =
     (case match_lit lit s of None \<Rightarrow> None | Some s1 \<Rightarrow> match_number s1)"

definition match_at :: "string \<Rightarrow> (string \<times> string \<times> string \<times> string) option" where
  "match_at s =
     (case match_field ''T:'' s of None \<Rightarrow> None | Some (g1, s1) \<Rightarrow>
      case match_spaces s1 of None \<Rightarrow> None | Some s2 \<Rightarrow>
      case match_field ''H:'' s2 of None \<Rightarrow> None | Some (g2, s3) \<Rightarrow>
      case match_spaces s3 of None \<Rightarrow> None | Some s4 \<Rightarrow>
      case match_field ''P:'' s4 of None \<Rightarrow> None | Some (g3, s5) \<Rightarrow>
      case match_spaces s5 of None \<Rightarrow> None | Some s6 \<Rightarrow>
      case match_field ''WS:'' s6 of None \<Rightarrow> None | Some (g4, s7) \<Rightarrow>
      Some (g1, g2, g3, g4))"

fun re_search :: "string \<Rightarrow> (string \<times> string \<times> string \<times> string) option" where
  "re_search [] = match_at []"
| "re_search (c # cs) =
     (case match_at (c # cs) of Some g \<Rightarrow> Some g | None \<Rightarrow> re_search cs)"

definition WeatherDaemon_parse_weather_data ::
  "(string \<Rightarrow> py_exn + 'v) \<Rightarrow> string \<Rightarrow> py_exn + (string \<times> 'v) list option" where
  "WeatherDaemon_parse_weather_data py_float data_line =
     (case re_search data_line of
        None \<Rightarrow> Inr None
      | Some (g1, g2, g3, g4) \<Rightarrow>
          (case py_float g1 of Inl e \<Rightarrow> Inl e | Inr t \<Rightarrow>
           case py_float g2 of Inl e \<Rightarrow> Inl e | Inr h \<Rightarrow>
           case py_float g3 of Inl e \<Rightarrow> Inl e | Inr p \<Rightarrow>
           case py_float g4 of Inl e \<Rightarrow> Inl e | Inr w \<Rightarrow>
           Inr (Some [(''temperature'', t), (''humidity'', h),
                      (''pressure'', p), (''wind_speed'', w)])))"

section \<open>Vocabulary for stating the parser properties\<close>

text \<open>
  An unsigned decimal is what \<^verbatim>\<open>\d+\.?\d*\<close> matches as a whole: digits, then possibly a
  dot and further digits.
\<close>

definition unsigned_decimal :: "string \<Rightarrow> bool" where
  "unsigned_decimal s =
     (takeWhile py_isdigit s \<noteq> [] \<and>
      (case dropWhile py_isdigit s of
         [] \<Rightarrow> True
       | c # r \<Rightarrow> c = CHR ''.'' \<and> list_all py_isdigit r))"

text \<open>
  A conversion that accepts exactly the unsigned decimals and keeps their text; it stands
  in for \<^verbatim>\<open>float\<close> where the model is run on a concrete line.
\<close>

definition decimal_literal :: "string \<Rightarrow> py_exn + string" where
  "decimal_literal s = (if unsigned_decimal s then Inr s else Inl ValueError)"

text \<open>
  The fields a line converts, in the order of its tokens: one per piece of the stripped
  line between single spaces that holds a colon and whose value \<open>py_float\<close> converts.
\<close>

definition converted_fields :: "(string \<Rightarrow> py_exn + 'v) \<Rightarrow> string \<Rightarrow> (string \<times> 'v) list" where
  "converted_fields py_float data_line =
     List.map_filter
       (\<lambda>pair. if CHR '':'' \<in> set pair
                then (case py_float (pair_value pair) of
                        Inr v \<Rightarrow> Some (field_name (pair_key pair), v)
                      | Inl e \<Rightarrow> None)
                else None)
       (split_on CHR '' '' (py_strip data_line))"

text \<open>
  The shape the pattern describes: the four fields in the order T, H, P, WS, each an
  unsigned decimal, with nothing but a non-empty run of space characters between one
  value and the next key.
\<close>

definition record_shape :: "string \<Rightarrow> bool" where
  "record_shape s =
     (\<exists>n1 w1 n2 w2 n3 w3 n4.
        s = ''T:'' @ n1 @ w1 @ ''H:'' @ n2 @ w2 @ ''P:'' @ n3 @ w3 @ ''WS:'' @ n4
        \<and> unsigned_decimal n1 \<and> unsigned_decimal n2
        \<and> unsigned_decimal n3 \<and> unsigned_decimal n4
        \<and> w1 \<noteq> [] \<and> list_all py_isspace w1
        \<and> w2 \<noteq> [] \<and> list_all py_isspace w2
        \<and> w3 \<noteq> [] \<and> list_all py_isspace w3)"

definition contains_record :: "string \<Rightarrow> bool" where
  "contains_record data_line = (\<exists>pre s post. data_line = pre @ s @ post \<and> record_shape s)"

fun contains :: "string \<Rightarrow> string \<Rightarrow> bool" where
  "contains lit [] = (lit = [])"
| "contains lit (c # cs) = (take (length lit) (c # cs) = lit \<or> contains lit cs)"

text \<open>
  The first place after an occurrence of the key \<open>lit\<close> in a line holds a digit: what the
  pattern needs of a key before it can match a value.
\<close>

fun key_with_digit :: "string \<Rightarrow> string \<Rightarrow> bool" where
  "key_with_digit lit [] = False"
| "key_with_digit lit (c # cs) =
     ((take (length lit) (c # cs) = lit
       \<and> (case drop (length lit) (c # cs) of [] \<Rightarrow> False | d # r \<Rightarrow> py_isdigit d))
      \<or> key_with_digit lit cs)"

section \<open>Connecting with retries\<close>

text \<open>
  One pass of the \<^verbatim>\<open>while\<close> loop of \<^verbatim>\<open>connect_serial\<close> closes an open connection, calls
  \<^verbatim>\<open>serial.Serial(...)\<close> and flushes the new connection. The outcome of the pass is an
  input: it succeeds, or \<^verbatim>\<open>serial.Serial\<close> raises (the attribute keeps the old, closed
  object), or \<^verbatim>\<open>flush\<close> raises (the attribute already holds the new, open object).
  \<open>outcome k\<close> is the outcome of the pass made while \<^verbatim>\<open>retry_count\<close> is \<open>k\<close>.

  \<open>serial_failed\<close> is the body of the handler that catches the exception \<open>e\<close> of a pass.
  Its \<^verbatim>\<open>time.sleep\<close> may raise; that exception is raised inside a handler, so it is not
  caught and leaves \<^verbatim>\<open>connect_serial\<close>. The result of the method is \<open>Inr b\<close> when it
  returns \<open>b\<close> and \<open>Inl x\<close> when the exception \<open>x\<close> leaves it.
\<close>

datatype serial_outcome =
    SerialConnected
  | SerialOpenRaises py_exn
  | SerialFlushRaises py_exn

definition serial_failed ::
  "config \<Rightarrow> py_exn \<Rightarrow> nat \<Rightarrow> 'r daemon \<Rightarrow> py_exn option \<times> 'r daemon" where
  "serial_failed cfg e retry_count s =
     (let s1 = (if e = SerialException
                then emit [Log WARNING (SerialAttemptFailed retry_count)]
                       (s\<lparr>serial_retry_count := int retry_count\<rparr>)
                else emit [Log ERROR SerialUnexpectedError] s)
      in if int retry_count < max_serial_retries cfg
         then py_sleep (serial_retry_delay cfg) s1 else (None, s1))"

function connect_serial_loop ::
  "config \<Rightarrow> (nat \<Rightarrow> serial_outcome) \<Rightarrow> nat \<Rightarrow> 'r daemon \<Rightarrow> (py_exn + bool) \<times> 'r daemon" where
  "connect_serial_loop cfg outcome retry_count s =
     (if int retry_count < max_serial_retries cfg \<and> running s then
        (let s1 = emit [SerialOpen]
                    (if serial_is_open s then s\<lparr>serial_connection := Some False\<rparr> else s)
         in case outcome retry_count of
              SerialConnected \<Rightarrow>
                (Inr True, emit [Log INFO ConnectedSerial]
                             (s1\<lparr>serial_connection := Some True, serial_retry_count := 0\<rparr>))
            | SerialOpenRaises e \<Rightarrow>
                (let r = serial_failed cfg e (Suc retry_count) s1 in
                 case fst r of
                   Some x \<Rightarrow> (Inl x, snd r)
                 | None \<Rightarrow> connect_serial_loop cfg outcome (Suc retry_count) (snd r))
            | SerialFlushRaises e \<Rightarrow>
                (let r = serial_failed cfg e (Suc retry_count)
                           (s1\<lparr>serial_connection := Some True\<rparr>) in
                 case fst r of
                   Some x \<Rightarrow> (Inl x, snd r)
                 | None \<Rightarrow> connect_serial_loop cfg outcome (Suc retry_count) (snd r)))
      else (Inr False, emit [Log ERROR SerialGaveUp] s))"
  by pat_completeness auto
termination
  by (relation "measure (\<lambda>(cfg, outcome, retry_count, s).
                   nat (max_serial_retries cfg - int retry_count))") auto

definition connect_serial ::
  "config \<Rightarrow> (nat \<Rightarrow> serial_outcome) \<Rightarrow> 'r daemon \<Rightarrow> (py_exn + bool) \<times> 'r daemon" where
  "connect_serial cfg outcome s = connect_serial_loop cfg outcome 0 s"

text \<open>
  \<^verbatim>\<open>connect_influxdb\<close> has one handler for every exception. A pass that raises before
  \<^verbatim>\<open>self.influx_client\<close> is assigned leaves the attribute as it was; one that raises later
  (in \<^verbatim>\<open>write_api\<close> or \<^verbatim>\<open>ping\<close>) leaves a client object behind.
\<close>

datatype influx_outcome =
    InfluxConnected
  | InfluxRaisesBefore
  | InfluxRaisesAfter

definition influx_failed :: "config \<Rightarrow> nat \<Rightarrow> 'r daemon \<Rightarrow> py_exn option \<times> 'r daemon" where
  "influx_failed cfg retry_count s =
     (let s1 = emit [Log WARNING (InfluxAttemptFailed retry_count)]
                 (s\<lparr>influx_retry_count := int retry_count\<rparr>)
      in if int retry_count < max_influx_retries cfg
         then py_sleep (influx_retry_delay cfg) s1 else (None, s1))"

function connect_influxdb_loop ::
  "config \<Rightarrow> (nat \<Rightarrow> influx_outcome) \<Rightarrow> nat \<Rightarrow> 'r daemon \<Rightarrow> (py_exn + bool) \<times> 'r daemon" where
  "connect_influxdb_loop cfg outcome retry_count s =
     (if int retry_count < max_influx_retries cfg \<and> running s then
        (let s1 = emit [InfluxOpen] s
         in case outcome retry_count of
              InfluxConnected \<Rightarrow>
                (Inr True, emit [Log INFO ConnectedInflux]
                             (s1\<lparr>influx_client := True, influx_retry_count := 0\<rparr>))
            | InfluxRaisesBefore \<Rightarrow>
                (let r = influx_failed cfg (Suc retry_count) s1 in
                 case fst r of
                   Some x \<Rightarrow> (Inl x, snd r)
                 | None \<Rightarrow> connect_influxdb_loop cfg outcome (Suc retry_count) (snd r))
            | InfluxRaisesAfter \<Rightarrow>
                (let r = influx_failed cfg (Suc retry_count) (s1\<lparr>influx_client := True\<rparr>) in
                 case fst r of
                   Some x \<Rightarrow> (Inl x, snd r)
                 | None \<Rightarrow> connect_influxdb_loop cfg outcome (Suc retry_count) (snd r)))
      else (Inr False, emit [Log ERROR InfluxGaveUp] s))"
  by pat_completeness auto
termination
  by (relation "measure (\<lambda>(cfg, outcome, retry_count, s).
                   nat (max_influx_retries cfg - int retry_count))") auto

definition connect_influxdb ::
  "config \<Rightarrow> (nat \<Rightarrow> influx_outcome) \<Rightarrow> 'r daemon \<Rightarrow> (py_exn + bool) \<times> 'r daemon" where
  "connect_influxdb cfg outcome s = connect_influxdb_loop cfg outcome 0 s"

section \<open>Sending\<close>

text \<open>
  A reading is the dictionary a parser returns. \<^verbatim>\<open>send_to_influxdb\<close> reads its four keys;
  a missing key raises inside the \<^verbatim>\<open>try\<close>, as a failing write does. \<open>write_ok\<close> tells
  whether \<^verbatim>\<open>write_api.write\<close> returns; \<open>utcnow\<close> is the clock at the call, read only when
  no timestamp is passed.
\<close>

type_synonym 'v reading = "(string \<times> 'v) list"

definition sendable :: "'v reading \<Rightarrow> bool" where
  "sendable weather_data =
     list_all (\<lambda>k. map_of weather_data k \<noteq> None)
       [''temperature'', ''humidity'', ''pressure'', ''wind_speed'']"

definition send_to_influxdb ::
  "int \<Rightarrow> bool \<Rightarrow> 'v reading \<Rightarrow> int option \<Rightarrow> 'v reading daemon \<Rightarrow> bool \<times> 'v reading daemon" where
  "send_to_influxdb utcnow write_ok weather_data timestamp s =
     (let ts = (case timestamp of None \<Rightarrow> utcnow | Some t \<Rightarrow> t) in
      if sendable weather_data \<and> write_ok
      then (True, emit [Send weather_data ts True, Log DEBUG DataSent] s)
      else (False, emit [Send weather_data ts False, Log ERROR SendFailed] s))"

section \<open>The sender thread\<close>

text \<open>
  One pass of the \<^verbatim>\<open>while\<close> loop of \<^verbatim>\<open>data_sender_worker\<close>. \<open>sender_batch\<close> is the
  \<^verbatim>\<open>for\<close> loop over at most ten items; \<open>utcnow k\<close> and \<open>write_ok k\<close> are the clock and
  the fate of the write at the \<open>k\<close>-th send of the pass. \<open>requeue_failed\<close> is the loop
  that puts the failed items back. The thread does not take \<^verbatim>\<open>queue_lock\<close>, so the main
  loop can call \<^verbatim>\<open>queue_data\<close> while a pass is under way: \<open>arrivals\<close> are the readings
  (each with the clock at its call) that the main loop queues after the last
  \<^verbatim>\<open>get_nowait\<close> of the pass and before its first \<^verbatim>\<open>put_nowait\<close>; it is empty when
  the pass runs undisturbed. An exception inside the pass is logged by its handler, which
  then sleeps; the result holds the exception that leaves the loop, if any.
\<close>

fun sender_batch ::
  "(nat \<Rightarrow> int) \<Rightarrow> (nat \<Rightarrow> bool) \<Rightarrow> nat \<Rightarrow> nat \<Rightarrow> nat \<Rightarrow> ('v reading \<times> int) list \<Rightarrow>
   'v reading daemon \<Rightarrow> nat \<times> ('v reading \<times> int) list \<times> 'v reading daemon" where
  "sender_batch utcnow write_ok 0 k sent_count failed_items s = (sent_count, failed_items, s)"
| "sender_batch utcnow write_ok (Suc n) k sent_count failed_items s =
     (case get_nowait (data_queue s) of
        Inl e \<Rightarrow> (sent_count, failed_items, s)
      | Inr ((weather_data, timestamp), q') \<Rightarrow>
          (case send_to_influxdb (utcnow k) (write_ok k) weather_data (Some timestamp)
                  (s\<lparr>data_queue := q'\<rparr>) of
             (ok, s') \<Rightarrow>
               if ok then sender_batch utcnow write_ok n (Suc k) (Suc sent_count) failed_items s'
               else sender_batch utcnow write_ok n (Suc k) sent_count
                      (failed_items @ [(weather_data, timestamp)]) s'))"

fun requeue_failed :: "int \<Rightarrow> ('r \<times> int) list \<Rightarrow> 'r daemon \<Rightarrow> 'r daemon" where
  "requeue_failed maxsize [] s = s"
| "requeue_failed maxsize (item # items) s =
     requeue_failed maxsize items
       (case put_nowait maxsize (data_queue s) item of
          Inr q' \<Rightarrow> s\<lparr>data_queue := q'\<rparr>
        | Inl e \<Rightarrow> emit [Log WARNING QueueFullDropFailed] s)"

definition sender_pass ::
  "config \<Rightarrow> int \<Rightarrow> (nat \<Rightarrow> int) \<Rightarrow> (nat \<Rightarrow> bool) \<Rightarrow> ('v reading \<times> int) list \<Rightarrow>
   'v reading daemon \<Rightarrow> py_exn option \<times> 'v reading daemon" where
  "sender_pass cfg maxsize utcnow write_ok arrivals s =
     (if data_queue s = [] then py_sleep (queue_flush_interval cfg) s
      else if influx_client s then
        (case sender_batch utcnow write_ok (min 10 (length (data_queue s))) 0 0 [] s of
           (sent_count, failed_items, s1) \<Rightarrow>
             (let s2 = requeue_failed maxsize failed_items (enqueue_all maxsize arrivals s1)
              in (None, if sent_count > 0 then emit [Log INFO (SentQueued sent_count)] s2
                        else s2)))
      else py_sleep (influx_retry_delay cfg) s)"

definition data_sender_worker_cycle ::
  "config \<Rightarrow> int \<Rightarrow> (nat \<Rightarrow> int) \<Rightarrow> (nat \<Rightarrow> bool) \<Rightarrow> ('v reading \<times> int) list \<Rightarrow>
   'v reading daemon \<Rightarrow> py_exn option \<times> 'v reading daemon" where
  "data_sender_worker_cycle cfg maxsize utcnow write_ok arrivals s =
     (case sender_pass cfg maxsize utcnow write_ok arrivals s of
        (None, s1) \<Rightarrow> (None, s1)
      | (Some e, s1) \<Rightarrow> py_sleep (queue_flush_interval cfg) (emit [Log ERROR SenderError] s1))"

section \<open>The watchdog thread\<close>

text \<open>
  One pass of the \<^verbatim>\<open>while\<close> loop of \<^verbatim>\<open>watchdog_worker\<close>; \<open>now\<close> is \<^verbatim>\<open>datetime.now()\<close>
  at its start and \<open>outcome\<close> the fate of the connection passes, should it reconnect.
  The pass first checks that data arrived recently, then that the main thread is
  responsive, logs the health status and sleeps. An exception inside the pass is logged
  by its handler, which then sleeps; the result holds the exception that leaves the
  loop, if any.
\<close>

definition watchdog_data_check ::
  "config \<Rightarrow> int \<Rightarrow> (nat \<Rightarrow> serial_outcome) \<Rightarrow> 'r daemon \<Rightarrow> py_exn option \<times> 'r daemon" where
  "watchdog_data_check cfg now outcome s =
     (if now - last_data_time s > data_timeout cfg then
        (let s' = emit [Log WARNING NoDataReceived] s in
         if serial_is_open s'
         then (case connect_serial cfg outcome (emit [Log INFO ReconnectingSerial] s') of
                 (Inl x, s1) \<Rightarrow> (Some x, s1)
               | (Inr b, s1) \<Rightarrow> (None, s1))
         else (None, s'))
      else (None, s))"

definition watchdog_liveness_check ::
  "config \<Rightarrow> int \<Rightarrow> 'r daemon \<Rightarrow> py_exn option \<times> 'r daemon" where
  "watchdog_liveness_check cfg now s1 =
     (if now - last_heartbeat s1 > watchdog_timeout cfg \<and> restart_on_hang cfg then
        (None, (emit [Log ERROR MainUnresponsive, Log ERROR ForcingRestart, Exit 1] s1)
                 \<lparr>exited := True\<rparr>)
      else
        (let s2 = (if now - last_heartbeat s1 > watchdog_timeout cfg
                   then emit [Log ERROR MainUnresponsive] s1 else s1);
             s3 = (if length (data_queue s2) > 0
                   then emit [Log INFO (HealthCheck (length (data_queue s2)))] s2 else s2)
         in py_sleep (health_check_interval cfg) s3))"

definition watchdog_pass ::
  "config \<Rightarrow> int \<Rightarrow> (nat \<Rightarrow> serial_outcome) \<Rightarrow> 'r daemon \<Rightarrow> py_exn option \<times> 'r daemon" where
  "watchdog_pass cfg now outcome s =
     (case watchdog_data_check cfg now outcome s of
        (Some x, s1) \<Rightarrow> (Some x, s1)
      | (None, s1) \<Rightarrow> watchdog_liveness_check cfg now s1)"

definition watchdog_cycle ::
  "config \<Rightarrow> int \<Rightarrow> (nat \<Rightarrow> serial_outcome) \<Rightarrow> 'r daemon \<Rightarrow> py_exn option \<times> 'r daemon" where
  "watchdog_cycle cfg now outcome s =
     (case watchdog_pass cfg now outcome s of
        (None, s1) \<Rightarrow> (None, s1)
      | (Some e, s1) \<Rightarrow> py_sleep (health_check_interval cfg) (emit [Log ERROR WatchdogError] s1))"

section \<open>The main loop\<close>

text \<open>
  What one pass of the \<^verbatim>\<open>while\<close> loop of \<^verbatim>\<open>run\<close> meets outside the daemon: the clock at
  the heartbeat, the fate of the connection passes it may start, what the serial port
  holds (\<open>ReadLine l\<close>: bytes are waiting and \<open>l\<close> is the decoded, stripped line;
  \<open>ReadRaises e\<close>: \<^verbatim>\<open>in_waiting\<close>, \<^verbatim>\<open>readline\<close> or \<^verbatim>\<open>decode\<close> raises \<open>e\<close>), the clock
  when a reading arrives, and clock and fate of the immediate send and of the queueing.
\<close>

datatype serial_read = NothingWaiting | ReadLine string | ReadRaises py_exn

record iteration_input =
  now_heartbeat :: int
  serial_reconnect :: "nat \<Rightarrow> serial_outcome"
  influx_reconnect :: "nat \<Rightarrow> influx_outcome"
  serial_input :: serial_read
  now_data :: int
  utcnow_send :: int
  write_result :: bool
  utcnow_queue :: int
  serial_recover :: "nat \<Rightarrow> serial_outcome"

definition max_consecutive_errors :: int where
  "max_consecutive_errors = 10"

text \<open>
  The statements inside the inner \<^verbatim>\<open>try\<close>. The result holds the exception that leaves them,
  if any, and the state reached. \<open>parse\<close> is \<^verbatim>\<open>self.parse_weather_data\<close>.
\<close>

definition read_and_relay ::
  "int \<Rightarrow> (string \<Rightarrow> py_exn + 'v reading option) \<Rightarrow> iteration_input \<Rightarrow>
   'v reading daemon \<Rightarrow> py_exn option \<times> 'v reading daemon" where
  "read_and_relay maxsize parse inp s =
     (case serial_input inp of
        NothingWaiting \<Rightarrow> (None, s)
      | ReadRaises e \<Rightarrow> (Some e, s)
      | ReadLine line \<Rightarrow>
          if line = [] then (None, s)
          else
            (let s1 = emit [Log DEBUG Received] s in
             case parse line of
               Inl e \<Rightarrow> (Some e, s1)
             | Inr None \<Rightarrow> (None, emit [Log DEBUG NotParsed] s1)
             | Inr (Some weather_data) \<Rightarrow>
                 if weather_data = [] then (None, emit [Log DEBUG NotParsed] s1)
                 else
                   (let s2 = emit [Log INFO Parsed] (s1\<lparr>last_data_time := now_data inp\<rparr>) in
                    if influx_client s2 then
                      (case send_to_influxdb (utcnow_send inp) (write_result inp)
                              weather_data None s2 of
                         (ok, s3) \<Rightarrow>
                           if ok then (None, s3\<lparr>consecutive_errors := 0\<rparr>)
                           else (None, queue_data maxsize (utcnow_queue inp) weather_data None
                                         (emit [Log WARNING SendFailedQueuing] s3)))
                    else (None, queue_data maxsize (utcnow_queue inp) weather_data None
                                  (emit [Log WARNING SendFailedQueuing] s2)))))"

text \<open>
  The inner \<^verbatim>\<open>try\<close> with its two handlers. An exception of another class leaves it, and
  so does one raised inside a handler.
\<close>

definition read_serial ::
  "config \<Rightarrow> int \<Rightarrow> (string \<Rightarrow> py_exn + 'v reading option) \<Rightarrow> iteration_input \<Rightarrow>
   'v reading daemon \<Rightarrow> py_exn option \<times> 'v reading daemon" where
  "read_serial cfg maxsize parse inp s =
     (case read_and_relay maxsize parse inp s of
        (None, s1) \<Rightarrow> (None, s1)
      | (Some e, s1) \<Rightarrow>
          if e = SerialException then
            (let s2 = emit [Log ERROR SerialError]
                        (s1\<lparr>consecutive_errors := consecutive_errors s1 + 1\<rparr>) in
             case connect_serial cfg (serial_recover inp) s2 of
               (Inl x, s3) \<Rightarrow> (Some x, s3)
             | (Inr ok, s3) \<Rightarrow>
                 if ok then (None, s3)
                 else py_sleep (serial_retry_delay cfg) (emit [Log ERROR ReconnectFailed] s3))
          else if e = UnicodeDecodeError then
            (None, emit [Log WARNING DecodeError]
                     (s1\<lparr>consecutive_errors := consecutive_errors s1 + 1\<rparr>))
          else (Some e, s1))"

text \<open>The check that closes a pass, with the sleep that follows it.\<close>

definition check_consecutive_errors :: "config \<Rightarrow> 'r daemon \<Rightarrow> py_exn option \<times> 'r daemon" where
  "check_consecutive_errors cfg s =
     (if consecutive_errors s \<ge> max_consecutive_errors then
        (let s1 = emit [Log ERROR (TooManyErrors (consecutive_errors s))] s in
         if restart_on_hang cfg then (None, (emit [Exit 1] s1)\<lparr>exited := True\<rparr>)
         else (case py_sleep 60 (s1\<lparr>consecutive_errors := 0\<rparr>) of
                 (Some x, s2) \<Rightarrow> (Some x, s2)
               | (None, s2) \<Rightarrow> py_sleep (read_interval cfg) s2))
      else py_sleep (read_interval cfg) s)"

text \<open>
  The statements of the outer \<^verbatim>\<open>try\<close>: the heartbeat, the check of the serial connection
  (which ends the pass with \<^verbatim>\<open>continue\<close> when the reconnection fails), the check of the
  InfluxDB client, the read, and the closing check.
\<close>

definition iteration_body ::
  "config \<Rightarrow> int \<Rightarrow> (string \<Rightarrow> py_exn + 'v reading option) \<Rightarrow> iteration_input \<Rightarrow>
   'v reading daemon \<Rightarrow> py_exn option \<times> 'v reading daemon" where
  "iteration_body cfg maxsize parse inp s =
     (let s1 = s\<lparr>last_heartbeat := now_heartbeat inp\<rparr>;
          (connected, s2) =
            (if \<not> serial_is_open s1
             then connect_serial cfg (serial_reconnect inp) (emit [Log WARNING SerialLost] s1)
             else (Inr True, s1))
      in case connected of
           Inl x \<Rightarrow> (Some x, s2)
         | Inr ok \<Rightarrow>
             if \<not> ok then py_sleep (serial_retry_delay cfg) s2
             else
             (let (reconnected, s3) =
                    (if \<not> influx_client s2
                     then connect_influxdb cfg (influx_reconnect inp)
                            (emit [Log INFO ReconnectingInflux] s2)
                     else (Inr True, s2))
              in case reconnected of
                   Inl x \<Rightarrow> (Some x, s3)
                 | Inr b \<Rightarrow>
                     (let (raised, s4) =
                            (if serial_is_open s3 then read_serial cfg maxsize parse inp s3
                             else (None, s3))
                      in case raised of
                           Some x \<Rightarrow> (Some x, s4)
                         | None \<Rightarrow> check_consecutive_errors cfg s4)))"

text \<open>
  A pass with the handler of the outer \<^verbatim>\<open>try\<close>; the result holds the exception that
  leaves the loop, if any.
\<close>

definition run_iteration ::
  "config \<Rightarrow> int \<Rightarrow> (string \<Rightarrow> py_exn + 'v reading option) \<Rightarrow> iteration_input \<Rightarrow>
   'v reading daemon \<Rightarrow> py_exn option \<times> 'v reading daemon" where
  "run_iteration cfg maxsize parse inp s =
     (case iteration_body cfg maxsize parse inp s of
        (None, s1) \<Rightarrow> (None, s1)
      | (Some e, s1) \<Rightarrow>
          py_sleep (read_interval cfg)
            (emit [Log ERROR UnexpectedError]
               (s1\<lparr>consecutive_errors := consecutive_errors s1 + 1\<rparr>)))"

text \<open>
  The loop itself, over the inputs of its passes: it goes on while the daemon runs, the
  process has not been left and no exception has left a pass.
\<close>

fun run_iterations ::
  "config \<Rightarrow> int \<Rightarrow> (string \<Rightarrow> py_exn + 'v reading option) \<Rightarrow> iteration_input list \<Rightarrow>
   'v reading daemon \<Rightarrow> py_exn option \<times> 'v reading daemon" where
  "run_iterations cfg maxsize parse [] s = (None, s)"
| "run_iterations cfg maxsize parse (inp # inps) s =
     (if running s \<and> \<not> exited s
      then (case run_iteration cfg maxsize parse inp s of
              (None, s1) \<Rightarrow> run_iterations cfg maxsize parse inps s1
            | (Some e, s1) \<Rightarrow> (Some e, s1))
      else (None, s))"

section \<open>Shutdown\<close>

text \<open>
  The last drain of \<^verbatim>\<open>cleanup\<close>: at most fifty queued items are sent, whatever the result.
\<close>

fun cleanup_drain ::
  "(nat \<Rightarrow> int) \<Rightarrow> (nat \<Rightarrow> bool) \<Rightarrow> nat \<Rightarrow> nat \<Rightarrow> 'v reading daemon \<Rightarrow> 'v reading daemon" where
  "cleanup_drain utcnow write_ok 0 k s = s"
| "cleanup_drain utcnow write_ok (Suc n) k s =
     (case get_nowait (data_queue s) of
        Inl e \<Rightarrow> s
      | Inr ((weather_data, timestamp), q') \<Rightarrow>
          cleanup_drain utcnow write_ok n (Suc k)
            (snd (send_to_influxdb (utcnow k) (write_ok k) weather_data (Some timestamp)
                    (s\<lparr>data_queue := q'\<rparr>))))"

definition cleanup ::
  "(nat \<Rightarrow> int) \<Rightarrow> (nat \<Rightarrow> bool) \<Rightarrow> 'v reading daemon \<Rightarrow> 'v reading daemon" where
  "cleanup utcnow write_ok s =
     (let s1 = emit [Log INFO CleanupStart] s;
          s2 = (if influx_client s1 \<and> data_queue s1 \<noteq> [] then
                  cleanup_drain utcnow write_ok (min 50 (length (data_queue s1))) 0
                    (emit [Log INFO (SendingRemaining (length (data_queue s1)))] s1)
                else s1);
          s3 = (if serial_is_open s2
                then emit [Log INFO SerialClosed] (s2\<lparr>serial_connection := Some False\<rparr>)
                else s2);
          s4 = (if influx_client s3 then emit [Log INFO InfluxClosed] s3 else s3)
      in emit [Log INFO CleanupComplete] s4)"

section \<open>Vocabulary for stating the daemon properties\<close>

definition is_send :: "'r event \<Rightarrow> bool" where
  "is_send e = (case e of Send r ts ok \<Rightarrow> True | _ \<Rightarrow> False)"

definition is_sleep :: "'r event \<Rightarrow> bool" where
  "is_sleep e = (case e of Sleep d \<Rightarrow> True | _ \<Rightarrow> False)"

text \<open>The events a state has gained over an earlier one.\<close>

definition new_events :: "'r daemon \<Rightarrow> 'r daemon \<Rightarrow> 'r event list" where
  "new_events s s' = drop (length (trace s)) (trace s')"

text \<open>
  For a batch of queued items whose sends are numbered from \<open>k\<close>: the send events the
  batch must show, and the items whose send fails.
\<close>

fun batch_sends :: "(nat \<Rightarrow> bool) \<Rightarrow> nat \<Rightarrow> ('v reading \<times> int) list \<Rightarrow> 'v reading event list" where
  "batch_sends write_ok k [] = []"
| "batch_sends write_ok k ((r, ts) # items) =
     Send r ts (sendable r \<and> write_ok k) # batch_sends write_ok (Suc k) items"

fun batch_failed :: "(nat \<Rightarrow> bool) \<Rightarrow> nat \<Rightarrow> ('v reading \<times> int) list \<Rightarrow> ('v reading \<times> int) list" where
  "batch_failed write_ok k [] = []"
| "batch_failed write_ok k ((r, ts) # items) =
     (if sendable r \<and> write_ok k then [] else [(r, ts)]) @ batch_failed write_ok (Suc k) items"

text \<open>
  The points a run of events writes or tries to write: each reading with the time its
  point carried.
\<close>

definition writes :: "'r event list \<Rightarrow> ('r \<times> int) list" where
  "writes es = List.map_filter (\<lambda>e. case e of Send r ts ok \<Rightarrow> Some (r, ts) | _ \<Rightarrow> None) es"

text \<open>\<open>n\<close> attempts with a sleep of \<open>d\<close> between one and the next.\<close>

definition attempts_with_delays :: "'r event \<Rightarrow> int \<Rightarrow> nat \<Rightarrow> 'r event list" where
  "attempts_with_delays attempt d n =
     (if n = 0 then [] else attempt # concat (replicate (n - 1) [Sleep d, attempt]))"

text \<open>
  Every call of \<^verbatim>\<open>connect_serial\<close> that returns ends by logging its verdict, success or
  giving up, and logs it nowhere else: the verdicts in a trace count the calls that
  returned.
\<close>

definition connection_verdict :: "'r event \<Rightarrow> bool" where
  "connection_verdict e = (e = Log INFO ConnectedSerial \<or> e = Log ERROR SerialGaveUp)"

text \<open>The events \<^verbatim>\<open>connect_serial\<close> can add.\<close>

definition connect_event :: "'r event \<Rightarrow> bool" where
  "connect_event e =
     (e = SerialOpen \<or> is_sleep e \<or> connection_verdict e
      \<or> e = Log ERROR SerialUnexpectedError
      \<or> (case e of Log l m \<Rightarrow> (case m of SerialAttemptFailed n \<Rightarrow> l = WARNING | _ \<Rightarrow> False)
          | _ \<Rightarrow> False))"

text \<open>
  The state in which the handler of a failed connection pass starts (the old connection
  closed, the attempt recorded, the new object in place when the pass raised after
  assigning it), and the exception the handler caught.
\<close>

definition after_failed_pass :: "serial_outcome \<Rightarrow> 'r daemon \<Rightarrow> 'r daemon" where
  "after_failed_pass oc s =
     (let s1 = emit [SerialOpen]
                 (if serial_is_open s then s\<lparr>serial_connection := Some False\<rparr> else s)
      in case oc of SerialFlushRaises e \<Rightarrow> s1\<lparr>serial_connection := Some True\<rparr> | _ \<Rightarrow> s1)"

definition raised_by :: "serial_outcome \<Rightarrow> py_exn" where
  "raised_by oc = (case oc of SerialOpenRaises e \<Rightarrow> e | SerialFlushRaises e \<Rightarrow> e
                   | SerialConnected \<Rightarrow> OtherException)"

definition after_failed_influx_pass :: "influx_outcome \<Rightarrow> 'r daemon \<Rightarrow> 'r daemon" where
  "after_failed_influx_pass oc s =
     (let s1 = emit [InfluxOpen] s
      in case oc of InfluxRaisesAfter \<Rightarrow> s1\<lparr>influx_client := True\<rparr> | _ \<Rightarrow> s1)"

text \<open>
  What the closing check of a pass of the main loop leaves when it finds the count at
  \<open>k\<close>: below the threshold the count stays and the process goes on; at the threshold
  or above the process is left with \<^verbatim>\<open>os._exit(1)\<close> when \<^verbatim>\<open>restart_on_hang\<close> is set, and
  the count starts again from zero when it is not. \<open>s\<close> is the state before the pass and
  \<open>s'\<close> the state after it.
\<close>

definition after_check :: "config \<Rightarrow> int \<Rightarrow> 'r daemon \<Rightarrow> 'r daemon \<Rightarrow> bool" where
  "after_check cfg k s s' =
     (if k < max_consecutive_errors
      then consecutive_errors s' = k \<and> exited s' = exited s
      else if restart_on_hang cfg
           then exited s' \<and> last (trace s') = Exit 1
           else consecutive_errors s' = 0 \<and> exited s' = exited s)"

text \<open>An idle daemon, used to run the model on concrete inputs.\<close>

definition daemon0 :: "'r daemon" where
  "daemon0 = \<lparr>running = True, serial_connection = None, influx_client = False,
     serial_retry_count = 0, influx_retry_count = 0, last_data_time = 0, last_heartbeat = 0,
     data_queue = [], consecutive_errors = 0, exited = False, trace = []\<rparr>"

text \<open>The defaults of \<^verbatim>\<open>load_config\<close>, with three attempts per connection.\<close>

definition config0 :: config where
  "config0 = \<lparr>max_serial_retries = 3, max_influx_retries = 3, serial_retry_delay = 5,
     influx_retry_delay = 30, watchdog_timeout = 300, data_timeout = 600,
     health_check_interval = 60, queue_flush_interval = 10, read_interval = 5,
     restart_on_hang = True\<rparr>"

text \<open>A daemon with both connections up.\<close>

definition daemon_up :: "'r daemon" where
  "daemon_up = daemon0\<lparr>serial_connection := Some True, influx_client := True\<rparr>"

text \<open>The reading of the line \<^verbatim>\<open>T:22.6 H:50.1 P:1011.9 WS:0.00\<close>, values kept as text.\<close>

definition reading0 :: "string reading" where
  "reading0 = [(''temperature'', ''22.6''), (''humidity'', ''50.1''),
               (''pressure'', ''1011.9''), (''wind_speed'', ''0.00'')]"

text \<open>
  What a pass of the main loop meets when nothing waits on the serial port, and when the
  line \<^verbatim>\<open>T:22.6 H:50.1 P:1011.9 WS:0.00\<close> waits there.
\<close>

definition idle_input :: iteration_input where
  "idle_input = \<lparr>now_heartbeat = 10, serial_reconnect = (\<lambda>k. SerialConnected),
     influx_reconnect = (\<lambda>k. InfluxConnected), serial_input = NothingWaiting,
     now_data = 11, utcnow_send = 12, write_result = True, utcnow_queue = 13,
     serial_recover = (\<lambda>k. SerialConnected)\<rparr>"

definition line_input :: iteration_input where
  "line_input = idle_input\<lparr>serial_input := ReadLine ''T:22.6 H:50.1 P:1011.9 WS:0.00''\<rparr>"

section \<open>Properties of the bounded queue\<close>

lemma queue_data_queue:
  assumes "0 < N" "int (length (data_queue s)) \<le> N"
  shows "data_queue (queue_data N t r ts s) =
     (if int (length (data_queue s)) = N then tl (data_queue s) else data_queue s)
       @ [(r, case ts of None \<Rightarrow> t | Some u \<Rightarrow> u)]"
  using assms
  by (cases "data_queue s")
     (auto simp: queue_data_def queue_full_def get_nowait_def put_nowait_def emit_def Let_def)

lemma queue_data_length:
  assumes "0 < N" "int (length (data_queue s)) \<le> N"
  shows "int (length (data_queue (queue_data N t r ts s))) \<le> N"
  using assms by (cases "data_queue s") (auto simp: queue_data_queue)

lemma enqueue_all_length:
  assumes "0 < N" "int (length (data_queue s)) \<le> N"
  shows "int (length (data_queue (enqueue_all N items s))) \<le> N"
  using assms
proof (induction items arbitrary: s)
  case Nil then show ?case by simp
next
  case (Cons a items)
  obtain r t where a: "a = (r, t)" by (cases a)
  show ?case unfolding a using Cons.prems by (simp add: Cons.IH queue_data_length)
qed

lemma enqueue_all_room:
  assumes "0 < N" "int (length (data_queue s)) + int (length items) \<le> N"
  shows "data_queue (enqueue_all N items s) = data_queue s @ items"
  using assms
proof (induction items arbitrary: s)
  case Nil then show ?case by simp
next
  case (Cons a items)
  obtain r t where a: "a = (r, t)" by (cases a)
  have q: "data_queue (queue_data N t r None s) = data_queue s @ [(r, t)]"
    using Cons.prems by (simp add: queue_data_queue)
  show ?case unfolding a using Cons.prems by (simp add: Cons.IH q)
qed

lemma enqueue_all_append:
  "enqueue_all N (xs @ ys) s = enqueue_all N ys (enqueue_all N xs s)"
  by (induction xs arbitrary: s) auto

lemma queue_data_no_error:
  assumes "0 < N" "int (length (data_queue s)) \<le> N"
  shows "trace (queue_data N t r ts s) = trace s @
     (if int (length (data_queue s)) = N then [Log WARNING QueueFullDropOldest] else [])
      @ [Log DEBUG (QueuedDataPoint (length (data_queue (queue_data N t r ts s))))]"
  using assms
  by (cases "data_queue s")
     (auto simp: queue_data_def queue_full_def get_nowait_def put_nowait_def emit_def Let_def)


text \<open>
  Claim C1. With a capacity \<open>N > 0\<close>: whatever is enqueued through \<^verbatim>\<open>queue_data\<close>, the
  queue never holds more than \<open>N\<close> items; \<open>N + 1\<close> calls on an empty queue leave the items
  2 to \<open>N + 1\<close> in their order of arrival; and every single call appends its item, after
  dropping exactly the oldest item when (and only when) the queue was full, logging the
  drop and never the failure branch.
\<close>

theorem queue_bounded_drop_oldest:
  assumes "0 < N"
  shows "(int (length (data_queue s)) \<le> N \<longrightarrow>
            int (length (data_queue (enqueue_all N items s))) \<le> N)
       \<and> (data_queue s = [] \<and> int (length items) = N + 1 \<longrightarrow>
            data_queue (enqueue_all N items s) = tl items)
       \<and> (int (length (data_queue s)) \<le> N \<longrightarrow>
            data_queue (queue_data N t r None s) =
              (if queue_full N (data_queue s) then tl (data_queue s) else data_queue s) @ [(r, t)]
            \<and> trace (queue_data N t r None s) = trace s @
              (if queue_full N (data_queue s) then [Log WARNING QueueFullDropOldest] else [])
              @ [Log DEBUG (QueuedDataPoint (length (data_queue (queue_data N t r None s))))])"
proof (intro conjI impI)
  assume "int (length (data_queue s)) \<le> N"
  then show "int (length (data_queue (enqueue_all N items s))) \<le> N"
    using assms by (rule enqueue_all_length[rotated])
next
  assume h: "data_queue s = [] \<and> int (length items) = N + 1"
  then have ne: "items \<noteq> []" using assms by auto
  define xs x where "xs = butlast items" and "x = last items"
  have items: "items = xs @ [x]" using ne by (simp add: xs_def x_def)
  obtain r' t' where x: "x = (r', t')" by (cases x)
  have len: "int (length xs) = N" using h items by simp
  then have xs_ne: "xs \<noteq> []" using assms by auto
  have q1: "data_queue (enqueue_all N xs s) = xs"
    using enqueue_all_room[of N s xs] assms h len by simp
  have "data_queue (enqueue_all N items s) =
        data_queue (queue_data N t' r' None (enqueue_all N xs s))"
    by (simp add: items x enqueue_all_append)
  also have "\<dots> = tl xs @ [x]"
    using queue_data_queue[of N "enqueue_all N xs s" t' r' None] assms len
    by (simp add: q1 x)
  also have "\<dots> = tl items" using xs_ne by (simp add: items)
  finally show "data_queue (enqueue_all N items s) = tl items" .
next
  assume b: "int (length (data_queue s)) \<le> N"
  have f: "queue_full N (data_queue s) \<longleftrightarrow> int (length (data_queue s)) = N"
    using assms b by (auto simp: queue_full_def)
  show "data_queue (queue_data N t r None s) =
      (if queue_full N (data_queue s) then tl (data_queue s) else data_queue s) @ [(r, t)]"
    using queue_data_queue[of N s t r None] assms b by (simp add: f)
next
  assume b: "int (length (data_queue s)) \<le> N"
  have f: "queue_full N (data_queue s) \<longleftrightarrow> int (length (data_queue s)) = N"
    using assms b by (auto simp: queue_full_def)
  show "trace (queue_data N t r None s) = trace s @
      (if queue_full N (data_queue s) then [Log WARNING QueueFullDropOldest] else [])
      @ [Log DEBUG (QueuedDataPoint (length (data_queue (queue_data N t r None s))))]"
    using queue_data_no_error[of N s t r None] assms b by (simp add: f)
qed

theorem queue_bounded_drop_oldest_witness:
  "(0::int) < 2
   \<and> data_queue (daemon0 :: nat daemon) = [] \<and> int (length [(1::nat, 10::int), (2, 20), (3, 30)]) = 2 + 1
   \<and> int (length (data_queue (daemon0 :: nat daemon))) \<le> 2
   \<and> int (length (data_queue (enqueue_all 2 [(1::nat, 10), (2, 20), (3, 30)] daemon0))) \<le> 2
   \<and> data_queue (enqueue_all 2 [(1::nat, 10), (2, 20), (3, 30)] daemon0) = [(2, 20), (3, 30)]
   \<and> data_queue (queue_data 2 30 (3::nat) None (enqueue_all 2 [(1, 10), (2, 20)] daemon0))
       = [(2, 20), (3, 30)]"
  using queue_bounded_drop_oldest[of 2 "daemon0 :: nat daemon" "[(1, 10), (2, 20), (3, 30)]" 30 3]
    queue_bounded_drop_oldest[of 2 "enqueue_all 2 [(1::nat, 10), (2, 20)] daemon0" "[]" 30 3]
  by (simp add: daemon0_def queue_data_def queue_full_def get_nowait_def put_nowait_def emit_def)

section \<open>Properties of the token parser\<close>

lemma split_on_nonempty: "split_on sep s \<noteq> []"
  by (induction s) (auto split: list.splits)

lemma parse_pair_cases:
  assumes "\<forall>s e. f s = Inl e \<longrightarrow> e = ValueError"
  shows "parse_pair f p d =
     Inr (case (if CHR '':'' \<in> set p
                then (case f (pair_value p) of
                        Inr v \<Rightarrow> Some (field_name (pair_key p), v) | Inl e \<Rightarrow> None)
                else None) of
            None \<Rightarrow> d
          | Some (k, v) \<Rightarrow> AList.update k v d)"
  using assms by (auto simp: parse_pair_def split: sum.splits)

lemma update_not_Nil: "AList.update k v d \<noteq> []"
  by (cases d) auto

lemma parse_pairs_fields:
  assumes "\<forall>s e. f s = Inl e \<longrightarrow> e = ValueError"
  shows "\<exists>d'. parse_pairs f ps d = Inr d'
      \<and> map_of d' = map_of
           (rev (List.map_filter
              (\<lambda>pair. if CHR '':'' \<in> set pair
                then (case f (pair_value pair) of
                        Inr v \<Rightarrow> Some (field_name (pair_key pair), v) | Inl e \<Rightarrow> None)
                else None) ps) @ d)
      \<and> (distinct (map fst d) \<longrightarrow> distinct (map fst d'))
      \<and> (d \<noteq> [] \<longrightarrow> d' \<noteq> [])
      \<and> (List.map_filter
              (\<lambda>pair. if CHR '':'' \<in> set pair
                then (case f (pair_value pair) of
                        Inr v \<Rightarrow> Some (field_name (pair_key pair), v) | Inl e \<Rightarrow> None)
                else None) ps \<noteq> [] \<longrightarrow> d' \<noteq> [])"
    (is "\<exists>d'. _ \<and> map_of d' = map_of (rev (List.map_filter ?c ps) @ d) \<and> _")
proof (induction ps arbitrary: d)
  case Nil
  show ?case by (simp add: map_filter_simps)
next
  case (Cons p ps)
  show ?case
  proof (cases "?c p")
    case None
    then have pp: "parse_pair f p d = Inr d"
      using parse_pair_cases[OF assms, of p d] by simp
    from Cons.IH[of d] None pp show ?thesis
      by (simp add: map_filter_simps)
  next
    case (Some kv)
    obtain k v where kv: "kv = (k, v)" by (cases kv)
    have pp: "parse_pair f p d = Inr (AList.update k v d)"
      using parse_pair_cases[OF assms, of p d] Some kv by simp
    obtain d' where d': "parse_pairs f ps (AList.update k v d) = Inr d'"
      "map_of d' = map_of (rev (List.map_filter ?c ps) @ AList.update k v d)"
      "distinct (map fst (AList.update k v d)) \<longrightarrow> distinct (map fst d')"
      "d' \<noteq> []"
      using Cons.IH[of "AList.update k v d"] update_not_Nil[of k v d] by blast
    have m: "map_of d' = map_of (rev (List.map_filter ?c (p # ps)) @ d)"
      using Some kv d'(2)
      by (simp add: map_filter_simps map_of_append AList.update_conv')
    show ?thesis
      using pp d'(1,3,4) m by (auto simp: AList.distinct_update)
  qed
qed

lemma station_parse_fields:
  assumes ok: "\<forall>s e. f s = Inl e \<longrightarrow> e = ValueError"
    and ne: "converted_fields f line \<noteq> []"
  shows "\<exists>r. WeatherStationDaemon_parse_weather_data f line = Inr (Some r)
       \<and> map_of r = map_of (rev (converted_fields f line))
       \<and> distinct (map fst r)"
proof -
  have strip: "py_strip line \<noteq> []"
  proof
    assume "py_strip line = []"
    then have "converted_fields f line = []"
      by (simp add: converted_fields_def map_filter_simps)
    with ne show False by simp
  qed
  from parse_pairs_fields[OF ok, of "split_on CHR '' '' (py_strip line)" "[]"] ne
  obtain d' where d': "parse_pairs f (split_on CHR '' '' (py_strip line)) [] = Inr d'"
    "map_of d' = map_of (rev (converted_fields f line))" "distinct (map fst d')" "d' \<noteq> []"
    unfolding converted_fields_def by auto
  show ?thesis
    using strip d' by (simp add: WeatherStationDaemon_parse_weather_data_def)
qed

lemma map_filter_not_Nil:
  "x \<in> set xs \<Longrightarrow> g x \<noteq> None \<Longrightarrow> List.map_filter g xs \<noteq> []"
  by (induction xs) (auto split: option.splits)

lemma converted_fields_nonempty:
  assumes "\<exists>pair \<in> set (split_on CHR '' '' (py_strip line)).
             CHR '':'' \<in> set pair \<and> (\<exists>v. f (pair_value pair) = Inr v)"
  shows "converted_fields f line \<noteq> []"
proof -
  from assms obtain pair v where p: "pair \<in> set (split_on CHR '' '' (py_strip line))"
    "CHR '':'' \<in> set pair" "f (pair_value pair) = Inr v" by blast
  show ?thesis
    unfolding converted_fields_def
    by (rule map_filter_not_Nil[OF p(1)]) (simp add: p(2,3))
qed

lemma station_parse_total:
  "\<exists>r. WeatherStationDaemon_parse_weather_data f line = Inr r"
  by (simp add: WeatherStationDaemon_parse_weather_data_def Let_def split: sum.splits)

lemma parse_pairs_no_field:
  assumes "\<forall>pair \<in> set ps. CHR '':'' \<in> set pair \<longrightarrow> (\<forall>v. f (pair_value pair) \<noteq> Inr v)"
  shows "parse_pairs f ps [] = Inr [] \<or> (\<exists>e. parse_pairs f ps [] = Inl e)"
  using assms
proof (induction ps)
  case Nil
  then show ?case by simp
next
  case (Cons p ps)
  then show ?case
    by (cases "f (pair_value p)") (auto simp: parse_pair_def)
qed

lemma station_parse_no_field:
  assumes "\<forall>pair \<in> set (split_on CHR '' '' (py_strip line)).
             CHR '':'' \<in> set pair \<longrightarrow> (\<forall>v. f (pair_value pair) \<noteq> Inr v)"
  shows "WeatherStationDaemon_parse_weather_data f line = Inr None"
  using parse_pairs_no_field[OF assms]
  by (auto simp: WeatherStationDaemon_parse_weather_data_def Let_def)

lemma field_name_table:
  "field_name ''T'' = ''temperature''" "field_name ''H'' = ''humidity''"
  "field_name ''P'' = ''pressure''" "field_name ''WS'' = ''windspeed''"
  "key \<notin> {''T'', ''H'', ''P'', ''WS''} \<Longrightarrow> field_name key = py_lower key"
  by (auto simp: field_name_def field_mapping_def)

lemma strip_simps:
  "py_strip ''T:abc H:50.1'' = ''T:abc H:50.1''"
  "py_strip ''abc'' = ''abc''" "py_strip ''50.1'' = ''50.1''"
  "py_strip ''T'' = ''T''" "py_strip ''H'' = ''H''"
  "py_strip ''garbage'' = ''garbage''" "py_strip [] = []"
  by (simp_all add: py_strip_def py_isspace_def)

lemma station_parse_example:
  assumes "f ''abc'' = Inl ValueError" "f ''50.1'' = Inr v"
  shows "WeatherStationDaemon_parse_weather_data f ''T:abc H:50.1'' = Inr (Some [(''humidity'', v)])"
  using assms
  by (simp add: WeatherStationDaemon_parse_weather_data_def strip_simps parse_pair_def
      pair_key_def pair_value_def field_name_table)

lemma station_parse_garbage:
  "WeatherStationDaemon_parse_weather_data f ''garbage'' = Inr None"
  "WeatherStationDaemon_parse_weather_data f '''' = Inr None"
  by (simp_all add: WeatherStationDaemon_parse_weather_data_def strip_simps parse_pair_def)

section \<open>Properties of the pattern parser\<close>

lemma match_lit_sound: "match_lit lit s = Some r \<Longrightarrow> s = lit @ r"
  by (auto simp: match_lit_def split: if_splits) (metis append_take_drop_id)

lemma match_lit_complete: "match_lit lit (lit @ r) = Some r"
  by (simp add: match_lit_def)

lemma dot_not_digit: "\<not> py_isdigit CHR ''.''"
  by (simp add: py_isdigit_def)

lemma space_not_digit: "py_isspace c \<Longrightarrow> \<not> py_isdigit c \<and> c \<noteq> CHR ''.''"
  by (auto simp: py_isspace_def py_isdigit_def)

lemma takeWhile_all: "list_all P xs \<Longrightarrow> takeWhile P xs = xs"
  by (induction xs) auto

lemma dropWhile_all: "list_all P xs \<Longrightarrow> dropWhile P xs = []"
  by (induction xs) auto

lemma list_all_takeWhile: "list_all P (takeWhile P xs)"
  by (induction xs) auto

lemma takeWhile_stop:
  "list_all P xs \<Longrightarrow> r = [] \<or> \<not> P (hd r) \<Longrightarrow> takeWhile P (xs @ r) = xs"
  by (induction xs) (auto, cases r, auto)

lemma dropWhile_stop:
  "list_all P xs \<Longrightarrow> r = [] \<or> \<not> P (hd r) \<Longrightarrow> dropWhile P (xs @ r) = r"
  by (induction xs) (auto, cases r, auto)

lemma unsigned_decimal_digits:
  "ds \<noteq> [] \<Longrightarrow> list_all py_isdigit ds \<Longrightarrow> unsigned_decimal ds"
  by (simp add: unsigned_decimal_def takeWhile_all dropWhile_all)

lemma unsigned_decimal_dot:
  assumes "ds \<noteq> []" "list_all py_isdigit ds" "list_all py_isdigit fs"
  shows "unsigned_decimal (ds @ CHR ''.'' # fs)"
proof -
  have "takeWhile py_isdigit (ds @ CHR ''.'' # fs) = ds"
    using takeWhile_stop[of py_isdigit ds "CHR ''.'' # fs"] assms dot_not_digit by simp
  moreover have "dropWhile py_isdigit (ds @ CHR ''.'' # fs) = CHR ''.'' # fs"
    using dropWhile_stop[of py_isdigit ds "CHR ''.'' # fs"] assms dot_not_digit by simp
  ultimately show ?thesis using assms by (simp add: unsigned_decimal_def)
qed

lemma unsigned_decimal_cases:
  assumes "unsigned_decimal n"
  obtains (whole) "n \<noteq> []" "list_all py_isdigit n"
  | (dotted) ds fs where "n = ds @ CHR ''.'' # fs" "ds \<noteq> []"
      "list_all py_isdigit ds" "list_all py_isdigit fs"
proof -
  let ?ds = "takeWhile py_isdigit n" and ?r = "dropWhile py_isdigit n"
  have n: "n = ?ds @ ?r" by simp
  have ds: "?ds \<noteq> []" "list_all py_isdigit ?ds"
    using assms by (simp_all add: unsigned_decimal_def list_all_takeWhile)
  show thesis
  proof (cases ?r)
    case Nil
    then have "n = ?ds" by (metis append_Nil2 takeWhile_dropWhile_id)
    then show thesis using ds whole by metis
  next
    case (Cons c fs)
    then have "c = CHR ''.''" "list_all py_isdigit fs"
      using assms by (simp_all add: unsigned_decimal_def)
    then have "n = ?ds @ CHR ''.'' # fs" using n Cons by simp
    then show thesis using dotted ds \<open>list_all py_isdigit fs\<close> by blast
  qed
qed

lemma match_number_sound:
  assumes "match_number s = Some (g, r)"
  shows "s = g @ r \<and> unsigned_decimal g"
proof -
  let ?ds = "takeWhile py_isdigit s" and ?r = "dropWhile py_isdigit s"
  have ne: "?ds \<noteq> []" using assms by (auto simp: match_number_def Let_def split: if_splits)
  have s: "s = ?ds @ ?r" by simp
  have mn: "match_number s =
     (case ?r of [] \<Rightarrow> Some (?ds, [])
      | c # r' \<Rightarrow> if c = CHR ''.''
          then Some (?ds @ CHR ''.'' # takeWhile py_isdigit r', dropWhile py_isdigit r')
          else Some (?ds, ?r))"
    using ne by (simp add: match_number_def Let_def)
  show ?thesis
  proof (cases ?r)
    case Nil
    from mn have "match_number s = Some (?ds, [])" unfolding Nil by simp
    then have "g = ?ds" "r = []" using assms by simp_all
    moreover have "s = ?ds @ []" by (metis Nil takeWhile_dropWhile_id)
    moreover have "unsigned_decimal ?ds"
      using ne by (intro unsigned_decimal_digits list_all_takeWhile)
    ultimately show ?thesis by (simp only:)
  next
    case (Cons c r')
    show ?thesis
    proof (cases "c = CHR ''.''")
      case True
      from mn have "match_number s =
          Some (?ds @ CHR ''.'' # takeWhile py_isdigit r', dropWhile py_isdigit r')"
        unfolding Cons using True by simp
      then have g: "g = ?ds @ CHR ''.'' # takeWhile py_isdigit r'" and r: "r = dropWhile py_isdigit r'"
        using assms by simp_all
      have "s = ?ds @ CHR ''.'' # (takeWhile py_isdigit r' @ dropWhile py_isdigit r')"
        using s Cons True by simp
      then have "s = g @ r" using g r by simp
      moreover have "unsigned_decimal g"
        unfolding g using ne by (intro unsigned_decimal_dot) (simp_all add: list_all_takeWhile)
      ultimately show ?thesis by simp
    next
      case False
      from mn have "match_number s = Some (?ds, c # r')"
        unfolding Cons using False by simp
      then have "g = ?ds" "r = ?r" using assms Cons by simp_all
      then show ?thesis
        using s ne unsigned_decimal_digits[of ?ds] by (simp add: list_all_takeWhile)
    qed
  qed
qed

lemma match_number_complete:
  assumes n: "unsigned_decimal n" and r: "r = [] \<or> (\<not> py_isdigit (hd r) \<and> hd r \<noteq> CHR ''.'')"
  shows "match_number (n @ r) = Some (n, r)"
  using n
proof (cases rule: unsigned_decimal_cases)
  case whole
  have t: "takeWhile py_isdigit (n @ r) = n" "dropWhile py_isdigit (n @ r) = r"
    using takeWhile_stop[of py_isdigit n r] dropWhile_stop[of py_isdigit n r] whole r by auto
  show ?thesis unfolding match_number_def Let_def t using whole(1) r by (cases r) auto
next
  case (dotted ds fs)
  have t: "takeWhile py_isdigit (n @ r) = ds" "dropWhile py_isdigit (n @ r) = CHR ''.'' # fs @ r"
    using takeWhile_stop[of py_isdigit ds "CHR ''.'' # fs @ r"]
      dropWhile_stop[of py_isdigit ds "CHR ''.'' # fs @ r"] dotted dot_not_digit by auto
  have u: "takeWhile py_isdigit (fs @ r) = fs" "dropWhile py_isdigit (fs @ r) = r"
    using takeWhile_stop[of py_isdigit fs r] dropWhile_stop[of py_isdigit fs r] dotted r by auto
  show ?thesis unfolding match_number_def Let_def t using u dotted(1,2) by simp
qed

lemma match_number_some:
  assumes "unsigned_decimal n"
  shows "\<exists>g r. match_number (n @ post) = Some (g, r)"
proof -
  have "takeWhile py_isdigit n \<noteq> []" using assms by (simp add: unsigned_decimal_def)
  then obtain c cs where n: "n = c # cs" "py_isdigit c" by (cases n) (auto split: if_splits)
  then have "takeWhile py_isdigit (n @ post) \<noteq> []" by simp
  then show ?thesis
    by (auto simp: match_number_def Let_def split: list.splits)
qed

lemma match_spaces_sound:
  assumes "match_spaces s = Some r"
  shows "\<exists>w. s = w @ r \<and> w \<noteq> [] \<and> list_all py_isspace w"
proof -
  have "takeWhile py_isspace s \<noteq> []" "r = dropWhile py_isspace s"
    using assms by (auto simp: match_spaces_def split: if_splits)
  then show ?thesis
    by (intro exI[of _ "takeWhile py_isspace s"]) (simp add: list_all_takeWhile)
qed

lemma match_spaces_complete:
  assumes "w \<noteq> []" "list_all py_isspace w" "r = [] \<or> \<not> py_isspace (hd r)"
  shows "match_spaces (w @ r) = Some r"
  using takeWhile_stop[of py_isspace w r] dropWhile_stop[of py_isspace w r] assms
  by (simp add: match_spaces_def)

lemma match_field_sound:
  assumes "match_field lit s = Some (g, r)"
  shows "s = lit @ g @ r \<and> unsigned_decimal g"
  using assms match_lit_sound match_number_sound
  by (fastforce simp: match_field_def split: option.splits)

lemma match_field_complete:
  assumes "unsigned_decimal n" "r = [] \<or> (\<not> py_isdigit (hd r) \<and> hd r \<noteq> CHR ''.'')"
  shows "match_field lit (lit @ n @ r) = Some (n, r)"
  using match_number_complete[OF assms] by (simp add: match_field_def match_lit_complete)

lemma match_field_some:
  assumes "unsigned_decimal n"
  shows "\<exists>g r. match_field lit (lit @ n @ post) = Some (g, r)"
  using match_number_some[OF assms] by (simp add: match_field_def match_lit_complete)

lemma match_at_sound:
  assumes "match_at s = Some (g1, g2, g3, g4)"
  shows "\<exists>w1 w2 w3 post.
           s = (''T:'' @ g1 @ w1 @ ''H:'' @ g2 @ w2 @ ''P:'' @ g3 @ w3 @ ''WS:'' @ g4) @ post
         \<and> unsigned_decimal g1 \<and> unsigned_decimal g2 \<and> unsigned_decimal g3 \<and> unsigned_decimal g4
         \<and> w1 \<noteq> [] \<and> list_all py_isspace w1 \<and> w2 \<noteq> [] \<and> list_all py_isspace w2
         \<and> w3 \<noteq> [] \<and> list_all py_isspace w3"
proof -
  from assms obtain s1 s2 s3 s4 s5 s6 s7 where
    f1: "match_field ''T:'' s = Some (g1, s1)" and w1: "match_spaces s1 = Some s2" and
    f2: "match_field ''H:'' s2 = Some (g2, s3)" and w2: "match_spaces s3 = Some s4" and
    f3: "match_field ''P:'' s4 = Some (g3, s5)" and w3: "match_spaces s5 = Some s6" and
    f4: "match_field ''WS:'' s6 = Some (g4, s7)"
    by (auto simp: match_at_def split: option.splits prod.splits)
  from match_spaces_sound[OF w1] obtain x1 where x1: "s1 = x1 @ s2" "x1 \<noteq> []" "list_all py_isspace x1" by blast
  from match_spaces_sound[OF w2] obtain x2 where x2: "s3 = x2 @ s4" "x2 \<noteq> []" "list_all py_isspace x2" by blast
  from match_spaces_sound[OF w3] obtain x3 where x3: "s5 = x3 @ s6" "x3 \<noteq> []" "list_all py_isspace x3" by blast
  note a = match_field_sound[OF f1] match_field_sound[OF f2] match_field_sound[OF f3] match_field_sound[OF f4]
  have "s = (''T:'' @ g1 @ x1 @ ''H:'' @ g2 @ x2 @ ''P:'' @ g3 @ x3 @ ''WS:'' @ g4) @ s7"
    using a x1(1) x2(1) x3(1) by simp
  then show ?thesis using a x1 x2 x3 by blast
qed

lemma match_at_complete:
  assumes "record_shape sh"
  shows "match_at (sh @ post) \<noteq> None"
proof -
  from assms obtain n1 w1 n2 w2 n3 w3 n4 where
    sh: "sh = ''T:'' @ n1 @ w1 @ ''H:'' @ n2 @ w2 @ ''P:'' @ n3 @ w3 @ ''WS:'' @ n4" and
    n: "unsigned_decimal n1" "unsigned_decimal n2" "unsigned_decimal n3" "unsigned_decimal n4" and
    w: "w1 \<noteq> []" "list_all py_isspace w1" "w2 \<noteq> []" "list_all py_isspace w2"
       "w3 \<noteq> []" "list_all py_isspace w3"
    unfolding record_shape_def by blast
  have hdw: "\<And>w r. w \<noteq> [] \<Longrightarrow> list_all py_isspace w \<Longrightarrow>
      \<not> py_isdigit (hd (w @ r)) \<and> hd (w @ r) \<noteq> CHR ''.''"
    subgoal for w r by (cases w) (auto dest: space_not_digit)
    done
  let ?t4 = "''WS:'' @ n4 @ post"
  let ?t3 = "''P:'' @ n3 @ w3 @ ?t4"
  let ?t2 = "''H:'' @ n2 @ w2 @ ?t3"
  have e: "sh @ post = ''T:'' @ n1 @ w1 @ ?t2" using sh by simp
  have f1: "match_field ''T:'' (''T:'' @ n1 @ w1 @ ?t2) = Some (n1, w1 @ ?t2)"
    using match_field_complete[OF n(1), of "w1 @ ?t2" "''T:''"] hdw[OF w(1,2)] by simp
  have s1: "match_spaces (w1 @ ?t2) = Some ?t2"
    by (rule match_spaces_complete[OF w(1,2)]) (simp add: py_isspace_def)
  have f2: "match_field ''H:'' ?t2 = Some (n2, w2 @ ?t3)"
    using match_field_complete[OF n(2), of "w2 @ ?t3" "''H:''"] hdw[OF w(3,4)] by simp
  have s2: "match_spaces (w2 @ ?t3) = Some ?t3"
    by (rule match_spaces_complete[OF w(3,4)]) (simp add: py_isspace_def)
  have f3: "match_field ''P:'' ?t3 = Some (n3, w3 @ ?t4)"
    using match_field_complete[OF n(3), of "w3 @ ?t4" "''P:''"] hdw[OF w(5,6)] by simp
  have s3: "match_spaces (w3 @ ?t4) = Some ?t4"
    by (rule match_spaces_complete[OF w(5,6)]) (simp add: py_isspace_def)
  obtain g4 r4 where f4: "match_field ''WS:'' ?t4 = Some (g4, r4)"
    using match_field_some[OF n(4), of "''WS:''" post] by auto
  show ?thesis
    unfolding e match_at_def by (simp only: f1 s1 f2 s2 f3 s3 f4 option.case prod.case) simp
qed

lemma re_search_sound:
  "re_search s = Some g \<Longrightarrow> \<exists>pre t. s = pre @ t \<and> match_at t = Some g"
proof (induction s)
  case Nil
  then show ?case by simp
next
  case (Cons c cs)
  show ?case
  proof (cases "match_at (c # cs)")
    case None
    with Cons obtain pre t where "cs = pre @ t" "match_at t = Some g" by auto
    then show ?thesis by (intro exI[of _ "c # pre"] exI[of _ t]) simp
  next
    case (Some a)
    with Cons.prems have "match_at (c # cs) = Some g" by simp
    then show ?thesis by (intro exI[of _ "[]"] exI[of _ "c # cs"]) simp
  qed
qed

lemma re_search_complete:
  "match_at t \<noteq> None \<Longrightarrow> re_search (pre @ t) \<noteq> None"
proof (induction pre)
  case Nil
  then show ?case by (cases t) (auto split: option.splits)
next
  case (Cons c pre)
  then show ?case by (auto split: option.splits)
qed

lemma re_search_iff: "(\<exists>g. re_search line = Some g) \<longleftrightarrow> contains_record line"
proof
  assume "\<exists>g. re_search line = Some g"
  then obtain g1 g2 g3 g4 where "re_search line = Some (g1, g2, g3, g4)" by (metis prod_cases4)
  from re_search_sound[OF this] obtain pre t where
    l: "line = pre @ t" and m: "match_at t = Some (g1, g2, g3, g4)" by blast
  from match_at_sound[OF m] obtain w1 w2 w3 post where
    t: "t = (''T:'' @ g1 @ w1 @ ''H:'' @ g2 @ w2 @ ''P:'' @ g3 @ w3 @ ''WS:'' @ g4) @ post" and
    r: "unsigned_decimal g1" "unsigned_decimal g2" "unsigned_decimal g3" "unsigned_decimal g4"
       "w1 \<noteq> []" "list_all py_isspace w1" "w2 \<noteq> []" "list_all py_isspace w2"
       "w3 \<noteq> []" "list_all py_isspace w3" by blast
  have "record_shape (''T:'' @ g1 @ w1 @ ''H:'' @ g2 @ w2 @ ''P:'' @ g3 @ w3 @ ''WS:'' @ g4)"
    unfolding record_shape_def using r by blast
  then show "contains_record line"
    unfolding contains_record_def using l t by blast
next
  assume "contains_record line"
  then obtain pre sh post where l: "line = pre @ sh @ post" and sh: "record_shape sh"
    unfolding contains_record_def by blast
  from re_search_complete[OF match_at_complete[OF sh, of post], of pre] l
  show "\<exists>g. re_search line = Some g" by auto
qed

lemma re_search_groups:
  assumes "re_search line = Some (g1, g2, g3, g4)"
  shows "unsigned_decimal g1 \<and> unsigned_decimal g2 \<and> unsigned_decimal g3 \<and> unsigned_decimal g4"
  using re_search_sound[OF assms] match_at_sound by blast

lemma decimal_literal_ok: "\<forall>s. unsigned_decimal s \<longrightarrow> (\<exists>v. decimal_literal s = Inr v)"
  by (simp add: decimal_literal_def)

lemma decimal_literal_raises: "\<forall>s e. decimal_literal s = Inl e \<longrightarrow> e = ValueError"
  by (simp add: decimal_literal_def)

lemma pattern_parse_none: "re_search line = None \<Longrightarrow> WeatherDaemon_parse_weather_data g line = Inr None"
  by (simp add: WeatherDaemon_parse_weather_data_def)

lemma pattern_parse_some:
  assumes ok: "\<forall>s. unsigned_decimal s \<longrightarrow> (\<exists>v. g s = Inr v)"
    and m: "re_search line = Some (g1, g2, g3, g4)"
  shows "\<exists>t h p w. g g1 = Inr t \<and> g g2 = Inr h \<and> g g3 = Inr p \<and> g g4 = Inr w \<and>
     WeatherDaemon_parse_weather_data g line =
       Inr (Some [(''temperature'', t), (''humidity'', h), (''pressure'', p), (''wind_speed'', w)])"
proof -
  from re_search_groups[OF m] ok obtain t h p w where
    "g g1 = Inr t" "g g2 = Inr h" "g g3 = Inr p" "g g4 = Inr w" by metis
  then show ?thesis using m by (simp add: WeatherDaemon_parse_weather_data_def)
qed

lemma pattern_parse_total:
  assumes "\<forall>s. unsigned_decimal s \<longrightarrow> (\<exists>v. g s = Inr v)"
  shows "\<exists>r. WeatherDaemon_parse_weather_data g line = Inr r"
proof (cases "re_search line")
  case None
  then show ?thesis by (simp add: pattern_parse_none)
next
  case (Some a)
  obtain g1 g2 g3 g4 where "a = (g1, g2, g3, g4)" by (cases a)
  with Some pattern_parse_some[OF assms, of line g1 g2 g3 g4] show ?thesis by auto
qed

lemma pattern_parse_iff:
  assumes "\<forall>s. unsigned_decimal s \<longrightarrow> (\<exists>v. g s = Inr v)"
  shows "(\<exists>r. WeatherDaemon_parse_weather_data g line = Inr (Some r)) \<longleftrightarrow> contains_record line"
proof (cases "re_search line")
  case None
  then have "\<not> contains_record line" using re_search_iff[of line] by simp
  then show ?thesis using None by (simp add: pattern_parse_none)
next
  case (Some a)
  obtain g1 g2 g3 g4 where "a = (g1, g2, g3, g4)" by (cases a)
  with Some pattern_parse_some[OF assms, of line g1 g2 g3 g4] re_search_iff[of line]
  show ?thesis by auto
qed

lemma pattern_parse_keys:
  assumes "WeatherDaemon_parse_weather_data g line = Inr (Some r)"
  shows "map fst r = [''temperature'', ''humidity'', ''pressure'', ''wind_speed'']"
  using assms
  by (auto simp: WeatherDaemon_parse_weather_data_def split: option.splits sum.splits)

lemma contains_prefix: "contains lit (lit @ b)"
proof (cases "lit @ b")
  case Nil
  then show ?thesis by simp
next
  case (Cons c cs)
  have "take (length lit) (lit @ b) = lit" by simp
  then show ?thesis unfolding Cons by simp
qed

lemma contains_intro: "contains lit (a @ lit @ b)"
  by (induction a) (simp_all add: contains_prefix)

lemma contains_record_keys:
  assumes "contains_record line"
  shows "contains ''T:'' line \<and> contains ''H:'' line \<and> contains ''P:'' line \<and> contains ''WS:'' line"
proof -
  from assms obtain pre n1 w1 n2 w2 n3 w3 n4 post where
    l: "line = pre @ (''T:'' @ n1 @ w1 @ ''H:'' @ n2 @ w2 @ ''P:'' @ n3 @ w3 @ ''WS:'' @ n4) @ post"
    unfolding contains_record_def record_shape_def by blast
  have "contains ''T:'' line"
    using contains_intro[of "''T:''" pre "n1 @ w1 @ ''H:'' @ n2 @ w2 @ ''P:'' @ n3 @ w3 @ ''WS:'' @ n4 @ post"]
    by (simp add: l)
  moreover have "contains ''H:'' line"
    using contains_intro[of "''H:''" "pre @ ''T:'' @ n1 @ w1" "n2 @ w2 @ ''P:'' @ n3 @ w3 @ ''WS:'' @ n4 @ post"]
    by (simp add: l)
  moreover have "contains ''P:'' line"
    using contains_intro[of "''P:''" "pre @ ''T:'' @ n1 @ w1 @ ''H:'' @ n2 @ w2" "n3 @ w3 @ ''WS:'' @ n4 @ post"]
    by (simp add: l)
  moreover have "contains ''WS:'' line"
    using contains_intro[of "''WS:''" "pre @ ''T:'' @ n1 @ w1 @ ''H:'' @ n2 @ w2 @ ''P:'' @ n3 @ w3" "n4 @ post"]
    by (simp add: l)
  ultimately show ?thesis by simp
qed

lemma unsigned_decimal_starts: "unsigned_decimal n \<Longrightarrow> \<exists>d r. n = d # r \<and> py_isdigit d"
  by (cases n) (auto simp: unsigned_decimal_def split: if_splits)

lemma key_with_digit_prefix: "lit \<noteq> [] \<Longrightarrow> py_isdigit d \<Longrightarrow> key_with_digit lit (lit @ d # b)"
  by (cases lit) simp_all

lemma key_with_digit_intro:
  "lit \<noteq> [] \<Longrightarrow> py_isdigit d \<Longrightarrow> key_with_digit lit (a @ lit @ d # b)"
  by (induction a) (simp_all add: key_with_digit_prefix)

lemma contains_record_key_digits:
  assumes "contains_record line"
  shows "key_with_digit ''T:'' line \<and> key_with_digit ''H:'' line
       \<and> key_with_digit ''P:'' line \<and> key_with_digit ''WS:'' line"
proof -
  from assms obtain pre n1 w1 n2 w2 n3 w3 n4 post where
    l: "line = pre @ (''T:'' @ n1 @ w1 @ ''H:'' @ n2 @ w2 @ ''P:'' @ n3 @ w3 @ ''WS:'' @ n4) @ post"
    and u: "unsigned_decimal n1" "unsigned_decimal n2" "unsigned_decimal n3" "unsigned_decimal n4"
    unfolding contains_record_def record_shape_def by blast
  from u(1) obtain d1 r1 where n1: "n1 = d1 # r1" "py_isdigit d1"
    using unsigned_decimal_starts by blast
  from u(2) obtain d2 r2 where n2: "n2 = d2 # r2" "py_isdigit d2"
    using unsigned_decimal_starts by blast
  from u(3) obtain d3 r3 where n3: "n3 = d3 # r3" "py_isdigit d3"
    using unsigned_decimal_starts by blast
  from u(4) obtain d4 r4 where n4: "n4 = d4 # r4" "py_isdigit d4"
    using unsigned_decimal_starts by blast
  have "key_with_digit ''T:'' line"
    using key_with_digit_intro[of "''T:''" d1 pre
        "r1 @ w1 @ ''H:'' @ n2 @ w2 @ ''P:'' @ n3 @ w3 @ ''WS:'' @ n4 @ post", OF _ n1(2)]
    by (simp add: l n1(1))
  moreover have "key_with_digit ''H:'' line"
    using key_with_digit_intro[of "''H:''" d2 "pre @ ''T:'' @ n1 @ w1"
        "r2 @ w2 @ ''P:'' @ n3 @ w3 @ ''WS:'' @ n4 @ post", OF _ n2(2)]
    by (simp add: l n2(1))
  moreover have "key_with_digit ''P:'' line"
    using key_with_digit_intro[of "''P:''" d3 "pre @ ''T:'' @ n1 @ w1 @ ''H:'' @ n2 @ w2"
        "r3 @ w3 @ ''WS:'' @ n4 @ post", OF _ n3(2)]
    by (simp add: l n3(1))
  moreover have "key_with_digit ''WS:'' line"
    using key_with_digit_intro[of "''WS:''" d4
        "pre @ ''T:'' @ n1 @ w1 @ ''H:'' @ n2 @ w2 @ ''P:'' @ n3 @ w3" "r4 @ post", OF _ n4(2)]
    by (simp add: l n4(1))
  ultimately show ?thesis by simp
qed

lemmas pattern_eval = WeatherDaemon_parse_weather_data_def match_at_def match_field_def
  match_lit_def match_number_def match_spaces_def py_isdigit_def py_isspace_def

lemma pattern_parse_negative:
  "WeatherDaemon_parse_weather_data g ''T:-5.0 H:50.0 P:1000.0 WS:0.0'' = Inr None"
  by (simp add: pattern_eval)

lemma pattern_parse_garbage:
  "WeatherDaemon_parse_weather_data g ''garbage'' = Inr None"
  "WeatherDaemon_parse_weather_data g '''' = Inr None"
  by (simp_all add: pattern_eval)

section \<open>The parser claims\<close>

text \<open>
  Claim C2 as stated fails on the parser of the daemon that owns the queue: the line
  \<^verbatim>\<open>T:abc H:50.1\<close> holds the token \<^verbatim>\<open>H:50.1\<close>, whose value converts, and
  \<^verbatim>\<open>WeatherDaemon.parse_weather_data\<close> returns no reading for it.
\<close>

theorem pattern_parse_drops_line_counterexample:
  "decimal_literal ''abc'' = Inl ValueError \<and> decimal_literal ''50.1'' = Inr ''50.1''
   \<and> WeatherDaemon_parse_weather_data decimal_literal ''T:abc H:50.1'' = Inr None"
  by (simp add: pattern_eval decimal_literal_def unsigned_decimal_def)

text \<open>
  Claim C2, amended to the token parser (\<^verbatim>\<open>WeatherStationDaemon.parse_weather_data\<close>).
  The tokens of a line are the pieces of the stripped line between single space
  characters. If \<^verbatim>\<open>float\<close> raises nothing but \<^verbatim>\<open>ValueError\<close> and at least one token
  holds a colon and a value that converts, the parser returns a reading that holds
  exactly the converted fields (for a field named twice, the value of its last token);
  the keys go through the table T \<open>\<rightarrow>\<close> temperature, H \<open>\<rightarrow>\<close> humidity, P \<open>\<rightarrow>\<close> pressure,
  WS \<open>\<rightarrow>\<close> windspeed, any other key lower-cased; a token whose value does not convert is
  left out and the rest of the line is still parsed, so \<^verbatim>\<open>T:abc H:50.1\<close> gives exactly
  the field humidity.
\<close>

theorem token_parse_converted_fields:
  assumes "\<forall>s e. py_float s = Inl e \<longrightarrow> e = ValueError"
    and "\<exists>pair \<in> set (split_on CHR '' '' (py_strip line)).
           CHR '':'' \<in> set pair \<and> (\<exists>v. py_float (pair_value pair) = Inr v)"
  shows "(\<exists>r. WeatherStationDaemon_parse_weather_data py_float line = Inr (Some r)
            \<and> map_of r = map_of (rev (converted_fields py_float line))
            \<and> distinct (map fst r))
       \<and> field_name ''T'' = ''temperature'' \<and> field_name ''H'' = ''humidity''
       \<and> field_name ''P'' = ''pressure'' \<and> field_name ''WS'' = ''windspeed''
       \<and> (key \<notin> {''T'', ''H'', ''P'', ''WS''} \<longrightarrow> field_name key = py_lower key)
       \<and> (py_float ''abc'' = Inl ValueError \<and> py_float ''50.1'' = Inr v \<longrightarrow>
            WeatherStationDaemon_parse_weather_data py_float ''T:abc H:50.1''
              = Inr (Some [(''humidity'', v)]))"
  using station_parse_fields[OF assms(1) converted_fields_nonempty[OF assms(2)]]
    field_name_table(1-4) field_name_table(5)[of key] station_parse_example[of py_float v]
  by simp

theorem token_parse_converted_fields_witness:
  "WeatherStationDaemon_parse_weather_data decimal_literal ''T:abc H:50.1''
     = Inr (Some [(''humidity'', ''50.1'')])
   \<and> converted_fields decimal_literal ''T:abc H:50.1'' = [(''humidity'', ''50.1'')]
   \<and> ''x'' \<notin> {''T'', ''H'', ''P'', ''WS''} \<and> field_name ''x'' = py_lower ''x''"
proof -
  have d: "decimal_literal ''abc'' = Inl ValueError" "decimal_literal ''50.1'' = Inr ''50.1''"
    by (simp_all add: decimal_literal_def unsigned_decimal_def py_isdigit_def)
  have h: "\<exists>pair \<in> set (split_on CHR '' '' (py_strip ''T:abc H:50.1'')).
           CHR '':'' \<in> set pair \<and> (\<exists>v. decimal_literal (pair_value pair) = Inr v)"
    by (simp add: strip_simps pair_value_def d)
  have c: "converted_fields decimal_literal ''T:abc H:50.1'' = [(''humidity'', ''50.1'')]"
    by (simp add: converted_fields_def strip_simps pair_value_def pair_key_def d field_name_table)
  show ?thesis
    using token_parse_converted_fields[OF decimal_literal_raises h, of "''x''" "''50.1''"] d c
    by simp
qed

text \<open>
  Claim C3. On every string both parsers return a value and never an exception (for the
  pattern parser, given that \<^verbatim>\<open>float\<close> converts every unsigned decimal); \<^verbatim>\<open>garbage\<close> and
  the empty string give no reading; and a line without any convertible field gives no
  reading: for the token parser a line none of whose tokens converts, for the pattern
  parser a line that does not contain the record.
\<close>

theorem parse_never_raises:
  "(\<exists>r. WeatherStationDaemon_parse_weather_data py_float line = Inr r)
   \<and> WeatherStationDaemon_parse_weather_data py_float ''garbage'' = Inr None
   \<and> WeatherStationDaemon_parse_weather_data py_float '''' = Inr None
   \<and> ((\<forall>pair \<in> set (split_on CHR '' '' (py_strip line)).
          CHR '':'' \<in> set pair \<longrightarrow> (\<forall>v. py_float (pair_value pair) \<noteq> Inr v))
        \<longrightarrow> WeatherStationDaemon_parse_weather_data py_float line = Inr None)
   \<and> ((\<forall>s. unsigned_decimal s \<longrightarrow> (\<exists>v. py_float s = Inr v))
        \<longrightarrow> (\<exists>r. WeatherDaemon_parse_weather_data py_float line = Inr r))
   \<and> WeatherDaemon_parse_weather_data py_float ''garbage'' = Inr None
   \<and> WeatherDaemon_parse_weather_data py_float '''' = Inr None
   \<and> (\<not> contains_record line \<longrightarrow> WeatherDaemon_parse_weather_data py_float line = Inr None)"
proof -
  have "\<not> contains_record line \<Longrightarrow> WeatherDaemon_parse_weather_data py_float line = Inr None"
    using re_search_iff[of line] by (cases "re_search line") (auto simp: pattern_parse_none)
  then show ?thesis
    using station_parse_total[of py_float line] station_parse_garbage[of py_float]
      station_parse_no_field[of line py_float] pattern_parse_total[of py_float line]
      pattern_parse_garbage[of py_float]
    by blast
qed

theorem parse_never_raises_witness:
  "split_on CHR '' '' (py_strip ''T:abc'') = [''T:abc'']
   \<and> decimal_literal (pair_value ''T:abc'') = Inl ValueError
   \<and> \<not> contains_record ''T:abc''
   \<and> WeatherStationDaemon_parse_weather_data decimal_literal ''T:abc'' = Inr None
   \<and> WeatherDaemon_parse_weather_data decimal_literal ''T:abc'' = Inr None"
proof -
  have s: "py_strip ''T:abc'' = ''T:abc''" by (simp add: py_strip_def py_isspace_def)
  have d: "decimal_literal ''abc'' = Inl ValueError"
    by (simp add: decimal_literal_def unsigned_decimal_def py_isdigit_def)
  have h1: "\<forall>pair \<in> set (split_on CHR '' '' (py_strip ''T:abc'')).
          CHR '':'' \<in> set pair \<longrightarrow> (\<forall>v. decimal_literal (pair_value pair) \<noteq> Inr v)"
    by (simp add: s pair_value_def strip_simps d)
  have "re_search ''T:abc'' = None" by (simp add: pattern_eval)
  then have h3: "\<not> contains_record ''T:abc''" using re_search_iff[of "''T:abc''"] by simp
  have h0: "split_on CHR '' '' (py_strip ''T:abc'') = [''T:abc'']"
    "decimal_literal (pair_value ''T:abc'') = Inl ValueError"
    by (simp_all add: s pair_value_def strip_simps d)
  show ?thesis
    using parse_never_raises[of decimal_literal "''T:abc''"] h0 h1 h3 decimal_literal_ok by blast
qed

text \<open>
  Claim C9 as stated fails: the line \<^verbatim>\<open>T:1.0 X:9 H:2.0 P:3.0 WS:4.0\<close> holds the four
  keys in the order T, H, P, WS, each followed by an unsigned decimal, and the pattern
  parser returns no reading, because something other than spaces stands between the
  temperature and the humidity field.
\<close>

theorem pattern_parse_needs_adjacent_fields_counterexample:
  "''T:1.0 X:9 H:2.0 P:3.0 WS:4.0'' =
      ''T:'' @ ''1.0'' @ '' X:9 '' @ ''H:'' @ ''2.0'' @ '' '' @ ''P:'' @ ''3.0'' @ '' '' @ ''WS:'' @ ''4.0''
   \<and> unsigned_decimal ''1.0'' \<and> unsigned_decimal ''2.0''
   \<and> unsigned_decimal ''3.0'' \<and> unsigned_decimal ''4.0''
   \<and> WeatherDaemon_parse_weather_data decimal_literal ''T:1.0 X:9 H:2.0 P:3.0 WS:4.0'' = Inr None"
  by (simp add: pattern_eval unsigned_decimal_def)

text \<open>
  Claim C9, amended. Given that \<^verbatim>\<open>float\<close> converts every unsigned decimal, the pattern
  parser returns a reading if and only if the line contains the four fields \<^verbatim>\<open>T:\<close>,
  \<^verbatim>\<open>H:\<close>, \<^verbatim>\<open>P:\<close>, \<^verbatim>\<open>WS:\<close> in that order, each key directly followed by an unsigned
  decimal (digits, then possibly a dot and digits) and each value separated from the
  next key by space characters only; otherwise it returns no reading. Every reading has
  exactly the fields temperature, humidity, pressure, wind_speed. Every line in which one
  of the four keys is nowhere directly followed by a digit gives no reading: so does a
  line whose only value for a key is negative, as in
  \<^verbatim>\<open>T:-5.0 H:50.0 P:1000.0 WS:0.0\<close>, and a line without one of the four keys.
\<close>

theorem pattern_parse_reading_iff:
  assumes "\<forall>s. unsigned_decimal s \<longrightarrow> (\<exists>v. py_float s = Inr v)"
  shows "((\<exists>r. WeatherDaemon_parse_weather_data py_float line = Inr (Some r))
            \<longleftrightarrow> contains_record line)
       \<and> (WeatherDaemon_parse_weather_data py_float line = Inr None
            \<longleftrightarrow> \<not> contains_record line)
       \<and> (\<forall>r. WeatherDaemon_parse_weather_data py_float line = Inr (Some r) \<longrightarrow>
            map fst r = [''temperature'', ''humidity'', ''pressure'', ''wind_speed''])
       \<and> WeatherDaemon_parse_weather_data py_float ''T:-5.0 H:50.0 P:1000.0 WS:0.0'' = Inr None
       \<and> (\<not> key_with_digit ''T:'' line \<or> \<not> key_with_digit ''H:'' line
            \<or> \<not> key_with_digit ''P:'' line \<or> \<not> key_with_digit ''WS:'' line
          \<longrightarrow> WeatherDaemon_parse_weather_data py_float line = Inr None)
       \<and> (\<not> contains ''T:'' line \<or> \<not> contains ''H:'' line
            \<or> \<not> contains ''P:'' line \<or> \<not> contains ''WS:'' line
          \<longrightarrow> WeatherDaemon_parse_weather_data py_float line = Inr None)"
proof -
  note i = pattern_parse_iff[OF assms, of line]
  obtain r where r: "WeatherDaemon_parse_weather_data py_float line = Inr r"
    using pattern_parse_total[OF assms] by blast
  have n: "WeatherDaemon_parse_weather_data py_float line = Inr None \<longleftrightarrow> \<not> contains_record line"
    using i r by (cases r) auto
  have k: "\<not> key_with_digit ''T:'' line \<or> \<not> key_with_digit ''H:'' line
            \<or> \<not> key_with_digit ''P:'' line \<or> \<not> key_with_digit ''WS:'' line
          \<longrightarrow> WeatherDaemon_parse_weather_data py_float line = Inr None"
    using n contains_record_key_digits[of line] by blast
  have c: "\<not> contains ''T:'' line \<or> \<not> contains ''H:'' line
            \<or> \<not> contains ''P:'' line \<or> \<not> contains ''WS:'' line
          \<longrightarrow> WeatherDaemon_parse_weather_data py_float line = Inr None"
    using n contains_record_keys[of line] by blast
  have f: "\<forall>r. WeatherDaemon_parse_weather_data py_float line = Inr (Some r) \<longrightarrow>
            map fst r = [''temperature'', ''humidity'', ''pressure'', ''wind_speed'']"
    using pattern_parse_keys[of py_float line] by blast
  show ?thesis
    using i n f pattern_parse_negative[of py_float] k c by simp
qed

theorem pattern_parse_reading_iff_witness:
  "contains_record ''T:22.6 H:50.1 P:1011.9 WS:0.00''
   \<and> WeatherDaemon_parse_weather_data decimal_literal ''T:22.6 H:50.1 P:1011.9 WS:0.00''
       = Inr (Some [(''temperature'', ''22.6''), (''humidity'', ''50.1''),
                    (''pressure'', ''1011.9''), (''wind_speed'', ''0.00'')])
   \<and> map fst [(''temperature'', ''22.6''), (''humidity'', ''50.1''),
               (''pressure'', ''1011.9''), (''wind_speed'', ''0.00'')]
       = [''temperature'', ''humidity'', ''pressure'', ''wind_speed'']
   \<and> \<not> contains ''T:'' ''H:50.1 P:1011.9 WS:0.00''
   \<and> \<not> contains_record ''H:50.1 P:1011.9 WS:0.00''
   \<and> WeatherDaemon_parse_weather_data decimal_literal ''H:50.1 P:1011.9 WS:0.00'' = Inr None
   \<and> \<not> key_with_digit ''T:'' ''T:-5.0 H:50.0 P:1000.0 WS:0.0''
   \<and> \<not> contains_record ''T:-5.0 H:50.0 P:1000.0 WS:0.0''
   \<and> WeatherDaemon_parse_weather_data decimal_literal ''T:-5.0 H:50.0 P:1000.0 WS:0.0'' = Inr None"
proof -
  have e: "WeatherDaemon_parse_weather_data decimal_literal ''T:22.6 H:50.1 P:1011.9 WS:0.00''
       = Inr (Some [(''temperature'', ''22.6''), (''humidity'', ''50.1''),
                    (''pressure'', ''1011.9''), (''wind_speed'', ''0.00'')])"
    by (simp add: pattern_eval decimal_literal_def unsigned_decimal_def)
  have c: "\<not> contains ''T:'' ''H:50.1 P:1011.9 WS:0.00''" by simp
  have k: "\<not> key_with_digit ''T:'' ''T:-5.0 H:50.0 P:1000.0 WS:0.0''"
    by (simp add: py_isdigit_def)
  note a = pattern_parse_reading_iff[OF decimal_literal_ok, of "''T:22.6 H:50.1 P:1011.9 WS:0.00''"]
  note b = pattern_parse_reading_iff[OF decimal_literal_ok, of "''H:50.1 P:1011.9 WS:0.00''"]
  note n = pattern_parse_reading_iff[OF decimal_literal_ok, of "''T:-5.0 H:50.0 P:1000.0 WS:0.0''"]
  have 1: "contains_record ''T:22.6 H:50.1 P:1011.9 WS:0.00''" using a e by blast
  have 2: "WeatherDaemon_parse_weather_data decimal_literal ''H:50.1 P:1011.9 WS:0.00'' = Inr None"
    using b c by blast
  have 3: "\<not> contains_record ''H:50.1 P:1011.9 WS:0.00''" using b 2 by blast
  have 4: "WeatherDaemon_parse_weather_data decimal_literal ''T:-5.0 H:50.0 P:1000.0 WS:0.0'' = Inr None"
    using n k by blast
  have 5: "\<not> contains_record ''T:-5.0 H:50.0 P:1000.0 WS:0.0''" using n 4 by blast
  show ?thesis using e c k 1 2 3 4 5 by simp
qed

section \<open>Properties of the connection loops\<close>

declare connect_serial_loop.simps [simp del]
declare connect_influxdb_loop.simps [simp del]

lemma attempts_with_delays_Suc:
  "attempts_with_delays a d (Suc n) =
     a # (if n = 0 then [] else Sleep d # attempts_with_delays a d n)"
  by (cases n) (simp_all add: attempts_with_delays_def)

lemma emit_simps [simp]:
  "trace (emit es s) = trace s @ es"
  "running (emit es s) = running s"
  "exited (emit es s) = exited s"
  "data_queue (emit es s) = data_queue s"
  "serial_connection (emit es s) = serial_connection s"
  "influx_client (emit es s) = influx_client s"
  "last_data_time (emit es s) = last_data_time s"
  "last_heartbeat (emit es s) = last_heartbeat s"
  "consecutive_errors (emit es s) = consecutive_errors s"
  "serial_retry_count (emit es s) = serial_retry_count s"
  "influx_retry_count (emit es s) = influx_retry_count s"
  by (simp_all add: emit_def)

lemma emit_Nil [simp]: "emit [] s = s"
  by (simp add: emit_def)

lemma serial_is_open_emit [simp]: "serial_is_open (emit es s) = serial_is_open s"
  by (simp add: serial_is_open_def)

lemma is_sleep_simps [simp]:
  "is_sleep (Sleep d)" "\<not> is_sleep (Log l m)" "\<not> is_sleep SerialOpen" "\<not> is_sleep InfluxOpen"
  "\<not> is_sleep (Send r ts ok)" "\<not> is_sleep (Exit c)"
  by (simp_all add: is_sleep_def)

lemma is_send_simps [simp]:
  "is_send (Send r ts ok)" "\<not> is_send (Log l m)" "\<not> is_send (Sleep d)"
  "\<not> is_send SerialOpen" "\<not> is_send InfluxOpen" "\<not> is_send (Exit c)"
  by (simp_all add: is_send_def)

text \<open>\<^verbatim>\<open>time.sleep\<close>: what it changes, and when it raises.\<close>

lemma py_sleep_fst: "fst (py_sleep d s) = (if d < 0 then Some ValueError else None)"
  by (simp add: py_sleep_def)

lemma py_sleep_ok: "0 \<le> d \<Longrightarrow> py_sleep d s = (None, emit [Sleep d] s)"
  by (simp add: py_sleep_def)

lemma py_sleep_fields [simp]:
  "running (snd (py_sleep d s)) = running s"
  "exited (snd (py_sleep d s)) = exited s"
  "data_queue (snd (py_sleep d s)) = data_queue s"
  "serial_connection (snd (py_sleep d s)) = serial_connection s"
  "influx_client (snd (py_sleep d s)) = influx_client s"
  "last_data_time (snd (py_sleep d s)) = last_data_time s"
  "last_heartbeat (snd (py_sleep d s)) = last_heartbeat s"
  "consecutive_errors (snd (py_sleep d s)) = consecutive_errors s"
  "serial_is_open (snd (py_sleep d s)) = serial_is_open s"
  "filter is_send (trace (snd (py_sleep d s))) = filter is_send (trace s)"
  by (simp_all add: py_sleep_def)

lemma py_sleep_trace:
  "trace (snd (py_sleep d s)) = trace s @ (if d < 0 then [] else [Sleep d])"
  by (simp add: py_sleep_def)

text \<open>The handlers of a failed connection pass.\<close>

lemma serial_failed_fields [simp]:
  "running (snd (serial_failed cfg e rc s)) = running s"
  "exited (snd (serial_failed cfg e rc s)) = exited s"
  "data_queue (snd (serial_failed cfg e rc s)) = data_queue s"
  "serial_connection (snd (serial_failed cfg e rc s)) = serial_connection s"
  "influx_client (snd (serial_failed cfg e rc s)) = influx_client s"
  "last_data_time (snd (serial_failed cfg e rc s)) = last_data_time s"
  "last_heartbeat (snd (serial_failed cfg e rc s)) = last_heartbeat s"
  "consecutive_errors (snd (serial_failed cfg e rc s)) = consecutive_errors s"
  "serial_is_open (snd (serial_failed cfg e rc s)) = serial_is_open s"
  "filter is_send (trace (snd (serial_failed cfg e rc s))) = filter is_send (trace s)"
  by (simp_all add: serial_failed_def Let_def serial_is_open_def)

lemma serial_failed_fst:
  "fst (serial_failed cfg e rc s)
     = (if int rc < max_serial_retries cfg \<and> serial_retry_delay cfg < 0
        then Some ValueError else None)"
  by (simp add: serial_failed_def Let_def py_sleep_fst)

lemma serial_failed_trace:
  "trace (snd (serial_failed cfg e rc s)) = trace s @
     [if e = SerialException then Log WARNING (SerialAttemptFailed rc)
      else Log ERROR SerialUnexpectedError] @
     (if int rc < max_serial_retries cfg \<and> 0 \<le> serial_retry_delay cfg
      then [Sleep (serial_retry_delay cfg)] else [])"
  by (simp add: serial_failed_def Let_def py_sleep_trace)

lemma influx_failed_fields [simp]:
  "running (snd (influx_failed cfg rc s)) = running s"
  "exited (snd (influx_failed cfg rc s)) = exited s"
  "data_queue (snd (influx_failed cfg rc s)) = data_queue s"
  "serial_connection (snd (influx_failed cfg rc s)) = serial_connection s"
  "influx_client (snd (influx_failed cfg rc s)) = influx_client s"
  "last_data_time (snd (influx_failed cfg rc s)) = last_data_time s"
  "last_heartbeat (snd (influx_failed cfg rc s)) = last_heartbeat s"
  "consecutive_errors (snd (influx_failed cfg rc s)) = consecutive_errors s"
  "serial_is_open (snd (influx_failed cfg rc s)) = serial_is_open s"
  "filter is_send (trace (snd (influx_failed cfg rc s))) = filter is_send (trace s)"
  by (simp_all add: influx_failed_def Let_def serial_is_open_def)

lemma influx_failed_fst:
  "fst (influx_failed cfg rc s)
     = (if int rc < max_influx_retries cfg \<and> influx_retry_delay cfg < 0
        then Some ValueError else None)"
  by (simp add: influx_failed_def Let_def py_sleep_fst)

lemma influx_failed_trace:
  "trace (snd (influx_failed cfg rc s)) = trace s @
     [Log WARNING (InfluxAttemptFailed rc)] @
     (if int rc < max_influx_retries cfg \<and> 0 \<le> influx_retry_delay cfg
      then [Sleep (influx_retry_delay cfg)] else [])"
  by (simp add: influx_failed_def Let_def py_sleep_trace)

text \<open>One unfolding of each loop, by the outcome of the pass.\<close>

lemma connect_serial_loop_stop:
  "\<not> (int k < max_serial_retries cfg \<and> running s) \<Longrightarrow>
   connect_serial_loop cfg outcome k s = (Inr False, emit [Log ERROR SerialGaveUp] s)"
  by (subst connect_serial_loop.simps) auto

lemma connect_serial_loop_ok:
  "int k < max_serial_retries cfg \<Longrightarrow> running s \<Longrightarrow> outcome k = SerialConnected \<Longrightarrow>
   connect_serial_loop cfg outcome k s =
     (Inr True, emit [Log INFO ConnectedSerial]
        ((emit [SerialOpen] (if serial_is_open s then s\<lparr>serial_connection := Some False\<rparr> else s))
           \<lparr>serial_connection := Some True, serial_retry_count := 0\<rparr>))"
  by (subst connect_serial_loop.simps) (simp add: Let_def)

lemma after_failed_pass_simps [simp]:
  "trace (after_failed_pass oc s) = trace s @ [SerialOpen]"
  "running (after_failed_pass oc s) = running s"
  "exited (after_failed_pass oc s) = exited s"
  "data_queue (after_failed_pass oc s) = data_queue s"
  "influx_client (after_failed_pass oc s) = influx_client s"
  "last_data_time (after_failed_pass oc s) = last_data_time s"
  "last_heartbeat (after_failed_pass oc s) = last_heartbeat s"
  "consecutive_errors (after_failed_pass oc s) = consecutive_errors s"
  by (simp_all add: after_failed_pass_def Let_def split: serial_outcome.splits)

lemma after_failed_pass_open:
  "serial_is_open (after_failed_pass oc s) = (\<exists>e. oc = SerialFlushRaises e)"
  by (simp add: after_failed_pass_def Let_def serial_is_open_def split: serial_outcome.splits)

lemma connect_serial_loop_failed:
  "int k < max_serial_retries cfg \<Longrightarrow> running s \<Longrightarrow> outcome k \<noteq> SerialConnected \<Longrightarrow>
   connect_serial_loop cfg outcome k s =
     (case fst (serial_failed cfg (raised_by (outcome k)) (Suc k) (after_failed_pass (outcome k) s)) of
        Some x \<Rightarrow> (Inl x, snd (serial_failed cfg (raised_by (outcome k)) (Suc k)
                               (after_failed_pass (outcome k) s)))
      | None \<Rightarrow> connect_serial_loop cfg outcome (Suc k)
                 (snd (serial_failed cfg (raised_by (outcome k)) (Suc k)
                         (after_failed_pass (outcome k) s))))"
proof -
  assume a: "int k < max_serial_retries cfg" "running s" "outcome k \<noteq> SerialConnected"
  show ?thesis
  proof (cases "outcome k")
    case SerialConnected
    with a(3) show ?thesis by simp
  next
    case (SerialOpenRaises e)
    show ?thesis
      by (subst connect_serial_loop.simps)
         (simp add: a SerialOpenRaises Let_def after_failed_pass_def raised_by_def cong: option.case_cong)
  next
    case (SerialFlushRaises e)
    show ?thesis
      by (subst connect_serial_loop.simps)
         (simp add: a SerialFlushRaises Let_def after_failed_pass_def raised_by_def cong: option.case_cong)
  qed
qed

lemma connect_serial_loop_retry:
  assumes "int k < max_serial_retries cfg" "running s" "outcome k \<noteq> SerialConnected"
    and "0 \<le> serial_retry_delay cfg"
  shows "connect_serial_loop cfg outcome k s =
     connect_serial_loop cfg outcome (Suc k)
       (snd (serial_failed cfg (raised_by (outcome k)) (Suc k) (after_failed_pass (outcome k) s)))"
  using assms(4) by (simp add: connect_serial_loop_failed[where outcome=outcome and k=k, OF assms(1-3)] serial_failed_fst)

lemma connect_influxdb_loop_stop:
  "\<not> (int k < max_influx_retries cfg \<and> running s) \<Longrightarrow>
   connect_influxdb_loop cfg outcome k s = (Inr False, emit [Log ERROR InfluxGaveUp] s)"
  by (subst connect_influxdb_loop.simps) auto

lemma connect_influxdb_loop_ok:
  "int k < max_influx_retries cfg \<Longrightarrow> running s \<Longrightarrow> outcome k = InfluxConnected \<Longrightarrow>
   connect_influxdb_loop cfg outcome k s =
     (Inr True, emit [Log INFO ConnectedInflux]
        ((emit [InfluxOpen] s)\<lparr>influx_client := True, influx_retry_count := 0\<rparr>))"
  by (subst connect_influxdb_loop.simps) (simp add: Let_def)

lemma after_failed_influx_pass_simps [simp]:
  "trace (after_failed_influx_pass oc s) = trace s @ [InfluxOpen]"
  "running (after_failed_influx_pass oc s) = running s"
  "exited (after_failed_influx_pass oc s) = exited s"
  "data_queue (after_failed_influx_pass oc s) = data_queue s"
  "serial_connection (after_failed_influx_pass oc s) = serial_connection s"
  "last_data_time (after_failed_influx_pass oc s) = last_data_time s"
  "last_heartbeat (after_failed_influx_pass oc s) = last_heartbeat s"
  "consecutive_errors (after_failed_influx_pass oc s) = consecutive_errors s"
  by (simp_all add: after_failed_influx_pass_def Let_def split: influx_outcome.splits)

lemma connect_influxdb_loop_failed:
  "int k < max_influx_retries cfg \<Longrightarrow> running s \<Longrightarrow> outcome k \<noteq> InfluxConnected \<Longrightarrow>
   connect_influxdb_loop cfg outcome k s =
     (case fst (influx_failed cfg (Suc k) (after_failed_influx_pass (outcome k) s)) of
        Some x \<Rightarrow> (Inl x, snd (influx_failed cfg (Suc k) (after_failed_influx_pass (outcome k) s)))
      | None \<Rightarrow> connect_influxdb_loop cfg outcome (Suc k)
                 (snd (influx_failed cfg (Suc k) (after_failed_influx_pass (outcome k) s))))"
proof -
  assume a: "int k < max_influx_retries cfg" "running s" "outcome k \<noteq> InfluxConnected"
  show ?thesis
  proof (cases "outcome k")
    case InfluxConnected
    with a(3) show ?thesis by simp
  next
    case InfluxRaisesBefore
    show ?thesis
      by (subst connect_influxdb_loop.simps)
         (simp add: a InfluxRaisesBefore Let_def after_failed_influx_pass_def cong: option.case_cong)
  next
    case InfluxRaisesAfter
    show ?thesis
      by (subst connect_influxdb_loop.simps)
         (simp add: a InfluxRaisesAfter Let_def after_failed_influx_pass_def cong: option.case_cong)
  qed
qed

lemma connect_influxdb_loop_retry:
  assumes "int k < max_influx_retries cfg" "running s" "outcome k \<noteq> InfluxConnected"
    and "0 \<le> influx_retry_delay cfg"
  shows "connect_influxdb_loop cfg outcome k s =
     connect_influxdb_loop cfg outcome (Suc k)
       (snd (influx_failed cfg (Suc k) (after_failed_influx_pass (outcome k) s)))"
  using assms(4) by (simp add: connect_influxdb_loop_failed[where outcome=outcome and k=k, OF assms(1-3)] influx_failed_fst)

text \<open>What a connection loop leaves untouched, whatever the outcomes.\<close>

lemma connect_serial_loop_frame:
  "running (snd (connect_serial_loop cfg outcome k s)) = running s
   \<and> exited (snd (connect_serial_loop cfg outcome k s)) = exited s
   \<and> data_queue (snd (connect_serial_loop cfg outcome k s)) = data_queue s
   \<and> influx_client (snd (connect_serial_loop cfg outcome k s)) = influx_client s
   \<and> last_data_time (snd (connect_serial_loop cfg outcome k s)) = last_data_time s
   \<and> last_heartbeat (snd (connect_serial_loop cfg outcome k s)) = last_heartbeat s
   \<and> consecutive_errors (snd (connect_serial_loop cfg outcome k s)) = consecutive_errors s
   \<and> filter is_send (trace (snd (connect_serial_loop cfg outcome k s))) = filter is_send (trace s)"
proof (induction "nat (max_serial_retries cfg - int k)" arbitrary: k s rule: less_induct)
  case less
  show ?case
  proof (cases "int k < max_serial_retries cfg \<and> running s")
    case False
    then show ?thesis by (simp add: connect_serial_loop_stop)
  next
    case True
    then have lt: "int k < max_serial_retries cfg" and run: "running s" by simp_all
    show ?thesis
    proof (cases "outcome k = SerialConnected")
      case True
      with lt run show ?thesis by (auto simp: connect_serial_loop_ok)
    next
      case False
      let ?r = "serial_failed cfg (raised_by (outcome k)) (Suc k) (after_failed_pass (outcome k) s)"
      have m: "nat (max_serial_retries cfg - int (Suc k)) < nat (max_serial_retries cfg - int k)"
        using lt by simp
      show ?thesis
      proof (cases "fst ?r")
        case None
        show ?thesis
          unfolding connect_serial_loop_failed[where outcome=outcome and k=k, OF lt run False] None option.case
          using less[OF m, of "snd ?r"] by simp
      next
        case (Some x)
        show ?thesis
          unfolding connect_serial_loop_failed[where outcome=outcome and k=k, OF lt run False] Some option.case
          by simp
      qed
    qed
  qed
qed

lemma connect_influxdb_loop_frame:
  "running (snd (connect_influxdb_loop cfg outcome k s)) = running s
   \<and> exited (snd (connect_influxdb_loop cfg outcome k s)) = exited s
   \<and> data_queue (snd (connect_influxdb_loop cfg outcome k s)) = data_queue s
   \<and> serial_connection (snd (connect_influxdb_loop cfg outcome k s)) = serial_connection s
   \<and> last_data_time (snd (connect_influxdb_loop cfg outcome k s)) = last_data_time s
   \<and> last_heartbeat (snd (connect_influxdb_loop cfg outcome k s)) = last_heartbeat s
   \<and> consecutive_errors (snd (connect_influxdb_loop cfg outcome k s)) = consecutive_errors s
   \<and> filter is_send (trace (snd (connect_influxdb_loop cfg outcome k s))) = filter is_send (trace s)"
proof (induction "nat (max_influx_retries cfg - int k)" arbitrary: k s rule: less_induct)
  case less
  show ?case
  proof (cases "int k < max_influx_retries cfg \<and> running s")
    case False
    then show ?thesis by (simp add: connect_influxdb_loop_stop)
  next
    case True
    then have lt: "int k < max_influx_retries cfg" and run: "running s" by simp_all
    show ?thesis
    proof (cases "outcome k = InfluxConnected")
      case True
      with lt run show ?thesis by (auto simp: connect_influxdb_loop_ok)
    next
      case False
      let ?r = "influx_failed cfg (Suc k) (after_failed_influx_pass (outcome k) s)"
      have m: "nat (max_influx_retries cfg - int (Suc k)) < nat (max_influx_retries cfg - int k)"
        using lt by simp
      show ?thesis
      proof (cases "fst ?r")
        case None
        show ?thesis
          unfolding connect_influxdb_loop_failed[where outcome=outcome and k=k, OF lt run False] None option.case
          using less[OF m, of "snd ?r"] by simp
      next
        case (Some x)
        show ?thesis
          unfolding connect_influxdb_loop_failed[where outcome=outcome and k=k, OF lt run False] Some option.case
          by simp
      qed
    qed
  qed
qed

lemma connect_serial_fields [simp]:
  "running (snd (connect_serial cfg outcome s)) = running s"
  "exited (snd (connect_serial cfg outcome s)) = exited s"
  "data_queue (snd (connect_serial cfg outcome s)) = data_queue s"
  "influx_client (snd (connect_serial cfg outcome s)) = influx_client s"
  "last_data_time (snd (connect_serial cfg outcome s)) = last_data_time s"
  "last_heartbeat (snd (connect_serial cfg outcome s)) = last_heartbeat s"
  "consecutive_errors (snd (connect_serial cfg outcome s)) = consecutive_errors s"
  "filter is_send (trace (snd (connect_serial cfg outcome s))) = filter is_send (trace s)"
  using connect_serial_loop_frame[of cfg outcome 0 s] by (simp_all add: connect_serial_def)

lemma connect_influxdb_fields [simp]:
  "running (snd (connect_influxdb cfg outcome s)) = running s"
  "exited (snd (connect_influxdb cfg outcome s)) = exited s"
  "data_queue (snd (connect_influxdb cfg outcome s)) = data_queue s"
  "serial_connection (snd (connect_influxdb cfg outcome s)) = serial_connection s"
  "last_data_time (snd (connect_influxdb cfg outcome s)) = last_data_time s"
  "last_heartbeat (snd (connect_influxdb cfg outcome s)) = last_heartbeat s"
  "consecutive_errors (snd (connect_influxdb cfg outcome s)) = consecutive_errors s"
  "filter is_send (trace (snd (connect_influxdb cfg outcome s))) = filter is_send (trace s)"
  using connect_influxdb_loop_frame[of cfg outcome 0 s] by (simp_all add: connect_influxdb_def)

text \<open>With a delay that is not negative, the loops return.\<close>

lemma connect_serial_loop_returns:
  assumes d: "0 \<le> serial_retry_delay cfg"
  shows "\<exists>b. fst (connect_serial_loop cfg outcome k s) = Inr b"
proof (induction "nat (max_serial_retries cfg - int k)" arbitrary: k s rule: less_induct)
  case less
  show ?case
  proof (cases "int k < max_serial_retries cfg \<and> running s")
    case False
    show ?thesis unfolding connect_serial_loop_stop[OF False] by auto
  next
    case True
    then have lt: "int k < max_serial_retries cfg" and run: "running s" by simp_all
    show ?thesis
    proof (cases "outcome k = SerialConnected")
      case True
      with lt run show ?thesis by (auto simp: connect_serial_loop_ok)
    next
      case False
      have m: "nat (max_serial_retries cfg - int (Suc k)) < nat (max_serial_retries cfg - int k)"
        using lt by simp
      show ?thesis
        unfolding connect_serial_loop_retry[where outcome=outcome and k=k, OF lt run False d] by (rule less[OF m])
    qed
  qed
qed

lemma connect_influxdb_loop_returns:
  assumes d: "0 \<le> influx_retry_delay cfg"
  shows "\<exists>b. fst (connect_influxdb_loop cfg outcome k s) = Inr b"
proof (induction "nat (max_influx_retries cfg - int k)" arbitrary: k s rule: less_induct)
  case less
  show ?case
  proof (cases "int k < max_influx_retries cfg \<and> running s")
    case False
    show ?thesis unfolding connect_influxdb_loop_stop[OF False] by auto
  next
    case True
    then have lt: "int k < max_influx_retries cfg" and run: "running s" by simp_all
    show ?thesis
    proof (cases "outcome k = InfluxConnected")
      case True
      with lt run show ?thesis by (auto simp: connect_influxdb_loop_ok)
    next
      case False
      have m: "nat (max_influx_retries cfg - int (Suc k)) < nat (max_influx_retries cfg - int k)"
        using lt by simp
      show ?thesis
        unfolding connect_influxdb_loop_retry[where outcome=outcome and k=k, OF lt run False d] by (rule less[OF m])
    qed
  qed
qed

lemma connect_serial_loop_fails:
  assumes d: "0 \<le> serial_retry_delay cfg" and fail: "\<forall>k. outcome k \<noteq> SerialConnected"
  shows "running s \<Longrightarrow>
     fst (connect_serial_loop cfg outcome k s) = Inr False
     \<and> (\<exists>es. trace (snd (connect_serial_loop cfg outcome k s))
                = trace s @ es @ [Log ERROR SerialGaveUp]
           \<and> filter (\<lambda>e. e = SerialOpen \<or> is_sleep e) es
                = attempts_with_delays SerialOpen (serial_retry_delay cfg)
                    (nat (max_serial_retries cfg - int k))
           \<and> (\<forall>e \<in> set es. \<forall>c. e \<noteq> Exit c))"
proof (induction "nat (max_serial_retries cfg - int k)" arbitrary: k s rule: less_induct)
  case less
  let ?M = "max_serial_retries cfg" and ?d = "serial_retry_delay cfg"
  let ?goal = ?case
  note run = less.prems
  show ?case
  proof (cases "int k < ?M")
    case False
    then have "nat (?M - int k) = 0" by simp
    then show ?thesis using False
      by (simp add: connect_serial_loop_stop attempts_with_delays_def)
  next
    case True
    have n: "nat (?M - int k) = Suc (nat (?M - int (Suc k)))" using True by simp
    have m: "nat (?M - int (Suc k)) < nat (?M - int k)" using True by simp
    have z: "nat (?M - int (Suc k)) = 0 \<longleftrightarrow> \<not> int (Suc k) < ?M" by auto
    have f: "outcome k \<noteq> SerialConnected" using fail by simp
    define s1 where "s1 = snd (serial_failed cfg (raised_by (outcome k)) (Suc k)
                                 (after_failed_pass (outcome k) s))"
    have eq: "connect_serial_loop cfg outcome k s = connect_serial_loop cfg outcome (Suc k) s1"
      unfolding s1_def by (rule connect_serial_loop_retry[where outcome=outcome and k=k, OF True run f d])
    have r1: "running s1" using run by (simp add: s1_def)
    let ?l = "if raised_by (outcome k) = SerialException
              then Log WARNING (SerialAttemptFailed (Suc k))
              else Log ERROR SerialUnexpectedError"
    have t1: "trace s1 = trace s @ [SerialOpen, ?l] @ (if int (Suc k) < ?M then [Sleep ?d] else [])"
      using d by (simp add: s1_def serial_failed_trace)
    from less.hyps[OF m r1] obtain es where es:
      "fst (connect_serial_loop cfg outcome (Suc k) s1) = Inr False"
      "trace (snd (connect_serial_loop cfg outcome (Suc k) s1))
         = trace s1 @ es @ [Log ERROR SerialGaveUp]"
      "filter (\<lambda>e. e = SerialOpen \<or> is_sleep e) es
         = attempts_with_delays SerialOpen ?d (nat (?M - int (Suc k)))"
      "\<forall>e \<in> set es. \<forall>c. e \<noteq> Exit c" by blast
    let ?es = "[SerialOpen, ?l] @ (if int (Suc k) < ?M then [Sleep ?d] else []) @ es"
    have a: "trace (snd (connect_serial_loop cfg outcome k s)) = trace s @ ?es @ [Log ERROR SerialGaveUp]"
      unfolding eq es(2) t1 by simp
    have b: "filter (\<lambda>e. e = SerialOpen \<or> is_sleep e) ?es
              = attempts_with_delays SerialOpen ?d (nat (?M - int k))"
      unfolding n attempts_with_delays_Suc using es(3) z
      by (auto simp: attempts_with_delays_def)
    have c: "\<forall>e \<in> set ?es. \<forall>c. e \<noteq> Exit c" using es(4) by auto
    have e: "fst (connect_serial_loop cfg outcome k s) = Inr False" using es(1) eq by simp
    show ?goal using a b c e by blast
  qed
qed

lemma connect_influxdb_loop_fails:
  assumes d: "0 \<le> influx_retry_delay cfg" and fail: "\<forall>k. outcome k \<noteq> InfluxConnected"
  shows "running s \<Longrightarrow>
     fst (connect_influxdb_loop cfg outcome k s) = Inr False
     \<and> (\<exists>es. trace (snd (connect_influxdb_loop cfg outcome k s))
                = trace s @ es @ [Log ERROR InfluxGaveUp]
           \<and> filter (\<lambda>e. e = InfluxOpen \<or> is_sleep e) es
                = attempts_with_delays InfluxOpen (influx_retry_delay cfg)
                    (nat (max_influx_retries cfg - int k))
           \<and> (\<forall>e \<in> set es. \<forall>c. e \<noteq> Exit c))"
proof (induction "nat (max_influx_retries cfg - int k)" arbitrary: k s rule: less_induct)
  case less
  let ?M = "max_influx_retries cfg" and ?d = "influx_retry_delay cfg"
  let ?goal = ?case
  note run = less.prems
  show ?case
  proof (cases "int k < ?M")
    case False
    then have "nat (?M - int k) = 0" by simp
    then show ?thesis using False
      by (simp add: connect_influxdb_loop_stop attempts_with_delays_def)
  next
    case True
    have n: "nat (?M - int k) = Suc (nat (?M - int (Suc k)))" using True by simp
    have m: "nat (?M - int (Suc k)) < nat (?M - int k)" using True by simp
    have z: "nat (?M - int (Suc k)) = 0 \<longleftrightarrow> \<not> int (Suc k) < ?M" by auto
    have f: "outcome k \<noteq> InfluxConnected" using fail by simp
    define s1 where "s1 = snd (influx_failed cfg (Suc k) (after_failed_influx_pass (outcome k) s))"
    have eq: "connect_influxdb_loop cfg outcome k s = connect_influxdb_loop cfg outcome (Suc k) s1"
      unfolding s1_def by (rule connect_influxdb_loop_retry[where outcome=outcome and k=k, OF True run f d])
    have r1: "running s1" using run by (simp add: s1_def)
    let ?l = "Log WARNING (InfluxAttemptFailed (Suc k))"
    have t1: "trace s1 = trace s @ [InfluxOpen, ?l] @ (if int (Suc k) < ?M then [Sleep ?d] else [])"
      using d by (simp add: s1_def influx_failed_trace)
    from less.hyps[OF m r1] obtain es where es:
      "fst (connect_influxdb_loop cfg outcome (Suc k) s1) = Inr False"
      "trace (snd (connect_influxdb_loop cfg outcome (Suc k) s1))
         = trace s1 @ es @ [Log ERROR InfluxGaveUp]"
      "filter (\<lambda>e. e = InfluxOpen \<or> is_sleep e) es
         = attempts_with_delays InfluxOpen ?d (nat (?M - int (Suc k)))"
      "\<forall>e \<in> set es. \<forall>c. e \<noteq> Exit c" by blast
    let ?es = "[InfluxOpen, ?l] @ (if int (Suc k) < ?M then [Sleep ?d] else []) @ es"
    have a: "trace (snd (connect_influxdb_loop cfg outcome k s)) = trace s @ ?es @ [Log ERROR InfluxGaveUp]"
      unfolding eq es(2) t1 by simp
    have b: "filter (\<lambda>e. e = InfluxOpen \<or> is_sleep e) ?es
              = attempts_with_delays InfluxOpen ?d (nat (?M - int k))"
      unfolding n attempts_with_delays_Suc using es(3) z
      by (auto simp: attempts_with_delays_def)
    have c: "\<forall>e \<in> set ?es. \<forall>c. e \<noteq> Exit c" using es(4) by auto
    have e: "fst (connect_influxdb_loop cfg outcome k s) = Inr False" using es(1) eq by simp
    show ?goal using a b c e by blast
  qed
qed

lemma count_attempts:
  "\<not> is_sleep a \<Longrightarrow> length (filter (\<lambda>e. e = a) (attempts_with_delays a d n)) = n"
  by (induction n) (auto simp: attempts_with_delays_Suc, auto simp: attempts_with_delays_def)

lemma filter_attempts:
  "filter (\<lambda>e. e = a) es = filter (\<lambda>e. e = a) (filter (\<lambda>e. e = a \<or> is_sleep e) es)"
  by (induction es) auto

lemma exhausted_summary:
  assumes tr: "trace s' = trace s @ es @ [Log l m]"
    and f: "filter (\<lambda>e. e = a \<or> is_sleep e) es = attempts_with_delays a d n"
    and a: "\<not> is_sleep a" "a \<noteq> Log l m"
    and x: "\<forall>e \<in> set es. \<forall>c. e \<noteq> Exit c"
  shows "filter (\<lambda>e. e = a \<or> is_sleep e) (new_events s s') = attempts_with_delays a d n
       \<and> length (filter (\<lambda>e. e = a) (new_events s s')) = n
       \<and> last (trace s') = Log l m
       \<and> (\<forall>c. Exit c \<notin> set (new_events s s'))"
proof -
  have ne: "new_events s s' = es @ [Log l m]" by (simp add: new_events_def tr)
  have 1: "filter (\<lambda>e. e = a \<or> is_sleep e) (new_events s s') = attempts_with_delays a d n"
    using f a by (simp add: ne)
  have 2: "length (filter (\<lambda>e. e = a) (new_events s s')) = n"
    by (subst filter_attempts) (simp add: 1 count_attempts a)
  show ?thesis using 1 2 tr x by (auto simp: ne)
qed

text \<open>
  Claim C6. While the daemon runs and the configured delay is not negative, a connection
  procedure whose every attempt fails makes exactly \<^verbatim>\<open>max_..._retries\<close> attempts, sleeps
  the configured delay between one attempt and the next (and not after the last), logs
  the final error and returns \<^verbatim>\<open>False\<close> to its caller; no exception leaves it and it
  does not leave the process. This holds for the serial port and for InfluxDB.
\<close>

theorem reconnection_exhausts_after_max_attempts:
  assumes "running s"
    and "0 \<le> serial_retry_delay cfg"
    and "0 \<le> influx_retry_delay cfg"
    and "\<forall>k. serial_outcomes k \<noteq> SerialConnected"
    and "\<forall>k. influx_outcomes k \<noteq> InfluxConnected"
  shows "fst (connect_serial cfg serial_outcomes s) = Inr False
       \<and> filter (\<lambda>e. e = SerialOpen \<or> is_sleep e)
            (new_events s (snd (connect_serial cfg serial_outcomes s)))
           = attempts_with_delays SerialOpen (serial_retry_delay cfg) (nat (max_serial_retries cfg))
       \<and> length (filter (\<lambda>e. e = SerialOpen)
            (new_events s (snd (connect_serial cfg serial_outcomes s)))) = nat (max_serial_retries cfg)
       \<and> last (trace (snd (connect_serial cfg serial_outcomes s))) = Log ERROR SerialGaveUp
       \<and> (\<forall>c. Exit c \<notin> set (new_events s (snd (connect_serial cfg serial_outcomes s))))
       \<and> exited (snd (connect_serial cfg serial_outcomes s)) = exited s
       \<and> fst (connect_influxdb cfg influx_outcomes s) = Inr False
       \<and> filter (\<lambda>e. e = InfluxOpen \<or> is_sleep e)
            (new_events s (snd (connect_influxdb cfg influx_outcomes s)))
           = attempts_with_delays InfluxOpen (influx_retry_delay cfg) (nat (max_influx_retries cfg))
       \<and> length (filter (\<lambda>e. e = InfluxOpen)
            (new_events s (snd (connect_influxdb cfg influx_outcomes s)))) = nat (max_influx_retries cfg)
       \<and> last (trace (snd (connect_influxdb cfg influx_outcomes s))) = Log ERROR InfluxGaveUp
       \<and> (\<forall>c. Exit c \<notin> set (new_events s (snd (connect_influxdb cfg influx_outcomes s))))
       \<and> exited (snd (connect_influxdb cfg influx_outcomes s)) = exited s"
proof -
  from connect_serial_loop_fails[OF assms(2,4,1), of 0]
  obtain es where es: "fst (connect_serial cfg serial_outcomes s) = Inr False"
    "trace (snd (connect_serial cfg serial_outcomes s)) = trace s @ es @ [Log ERROR SerialGaveUp]"
    "filter (\<lambda>e. e = SerialOpen \<or> is_sleep e) es
       = attempts_with_delays SerialOpen (serial_retry_delay cfg) (nat (max_serial_retries cfg))"
    "\<forall>e \<in> set es. \<forall>c. e \<noteq> Exit c"
    unfolding connect_serial_def by auto
  from connect_influxdb_loop_fails[OF assms(3,5,1), of 0]
  obtain fs where fs: "fst (connect_influxdb cfg influx_outcomes s) = Inr False"
    "trace (snd (connect_influxdb cfg influx_outcomes s)) = trace s @ fs @ [Log ERROR InfluxGaveUp]"
    "filter (\<lambda>e. e = InfluxOpen \<or> is_sleep e) fs
       = attempts_with_delays InfluxOpen (influx_retry_delay cfg) (nat (max_influx_retries cfg))"
    "\<forall>e \<in> set fs. \<forall>c. e \<noteq> Exit c"
    unfolding connect_influxdb_def by auto
  note a = exhausted_summary[OF es(2,3) _ _ es(4)] exhausted_summary[OF fs(2,3) _ _ fs(4)]
  show ?thesis using es(1) fs(1) a by simp
qed

theorem reconnection_exhausts_after_max_attempts_witness:
  "running (daemon0 :: nat daemon)
   \<and> 0 \<le> serial_retry_delay config0 \<and> 0 \<le> influx_retry_delay config0
   \<and> fst (connect_serial config0 (\<lambda>k. SerialOpenRaises SerialException) (daemon0 :: nat daemon))
       = Inr False
   \<and> filter (\<lambda>e. e = SerialOpen \<or> is_sleep e)
        (new_events daemon0
           (snd (connect_serial config0 (\<lambda>k. SerialOpenRaises SerialException) (daemon0 :: nat daemon))))
       = [SerialOpen, Sleep 5, SerialOpen, Sleep 5, SerialOpen]
   \<and> fst (connect_influxdb config0 (\<lambda>k. InfluxRaisesBefore) (daemon0 :: nat daemon)) = Inr False
   \<and> filter (\<lambda>e. e = InfluxOpen \<or> is_sleep e)
        (new_events daemon0
           (snd (connect_influxdb config0 (\<lambda>k. InfluxRaisesBefore) (daemon0 :: nat daemon))))
       = [InfluxOpen, Sleep 30, InfluxOpen, Sleep 30, InfluxOpen]"
proof -
  have r: "running (daemon0 :: nat daemon)" by (simp add: daemon0_def)
  have n: "nat (max_serial_retries config0) = Suc (Suc (Suc 0))"
    "nat (max_influx_retries config0) = Suc (Suc (Suc 0))"
    "serial_retry_delay config0 = 5" "influx_retry_delay config0 = 30"
    by (simp_all add: config0_def)
  have d: "0 \<le> serial_retry_delay config0" "0 \<le> influx_retry_delay config0"
    by (simp_all add: n)
  show ?thesis
    using reconnection_exhausts_after_max_attempts[OF r d,
        of "\<lambda>k. SerialOpenRaises SerialException" "\<lambda>k. InfluxRaisesBefore"] r
    by (simp add: n attempts_with_delays_def)
qed

section \<open>Properties of the watchdog\<close>

lemma connect_event_simps [simp]:
  "connect_event SerialOpen" "connect_event (Sleep d)"
  "connect_event (Log INFO ConnectedSerial)" "connect_event (Log ERROR SerialGaveUp)"
  "connect_event (Log ERROR SerialUnexpectedError)"
  "connect_event (Log WARNING (SerialAttemptFailed n))"
  "\<not> connect_event (Exit c)" "\<not> connect_event (Log WARNING NoDataReceived)"
  "\<not> connect_event (Log INFO ReconnectingSerial)"
  by (simp_all add: connect_event_def connection_verdict_def is_sleep_def)

lemma connection_verdict_simps [simp]:
  "connection_verdict (Log INFO ConnectedSerial)" "connection_verdict (Log ERROR SerialGaveUp)"
  "\<not> connection_verdict SerialOpen" "\<not> connection_verdict (Sleep d)"
  "\<not> connection_verdict (Log ERROR SerialUnexpectedError)"
  "\<not> connection_verdict (Log WARNING (SerialAttemptFailed n))"
  "\<not> connection_verdict (Log WARNING NoDataReceived)"
  "\<not> connection_verdict (Log INFO ReconnectingSerial)"
  "\<not> connection_verdict (Log ERROR MainUnresponsive)"
  "\<not> connection_verdict (Log ERROR ForcingRestart)"
  "\<not> connection_verdict (Log ERROR WatchdogError)"
  "\<not> connection_verdict (Log INFO (HealthCheck q))"
  "\<not> connection_verdict (Exit c)"
  by (simp_all add: connection_verdict_def)

text \<open>
  The events of a call of \<^verbatim>\<open>connect_serial\<close> that starts with \<^verbatim>\<open>retry_count\<close> at \<open>k\<close>:
  one verdict, and no more openings of the port than attempts are left.
\<close>

lemma connect_serial_loop_trace:
  assumes d: "0 \<le> serial_retry_delay cfg"
  shows "\<exists>es. trace (snd (connect_serial_loop cfg outcome k s)) = trace s @ es
     \<and> length (filter connection_verdict es) = 1
     \<and> length (filter (\<lambda>e. e = SerialOpen) es) \<le> nat (max_serial_retries cfg - int k)
     \<and> (int k < max_serial_retries cfg \<and> running s \<longrightarrow>
          1 \<le> length (filter (\<lambda>e. e = SerialOpen) es))
     \<and> (\<forall>e \<in> set es. connect_event e)"
proof (induction "nat (max_serial_retries cfg - int k)" arbitrary: k s rule: less_induct)
  case less
  let ?M = "max_serial_retries cfg" and ?d = "serial_retry_delay cfg"
  let ?goal = ?case
  show ?case
  proof (cases "int k < ?M \<and> running s")
    case False
    show ?thesis
      unfolding connect_serial_loop_stop[OF False] using False
      by (intro exI[of _ "[Log ERROR SerialGaveUp]"]) auto
  next
    case True
    then have lt: "int k < ?M" and run: "running s" by simp_all
    have n: "nat (?M - int k) = Suc (nat (?M - int (Suc k)))" using lt by simp
    have m: "nat (?M - int (Suc k)) < nat (?M - int k)" using lt by simp
    show ?thesis
    proof (cases "outcome k = SerialConnected")
      case True
      have "trace (snd (connect_serial_loop cfg outcome k s))
              = trace s @ [SerialOpen, Log INFO ConnectedSerial]"
        unfolding connect_serial_loop_ok[where outcome=outcome and k=k, OF lt run True] by simp
      then show ?thesis using lt
        by (intro exI[of _ "[SerialOpen, Log INFO ConnectedSerial]"]) simp
    next
      case False
      define s1 where "s1 = snd (serial_failed cfg (raised_by (outcome k)) (Suc k)
                                   (after_failed_pass (outcome k) s))"
      have eq: "connect_serial_loop cfg outcome k s = connect_serial_loop cfg outcome (Suc k) s1"
        unfolding s1_def
        by (rule connect_serial_loop_retry[where outcome=outcome and k=k, OF lt run False d])
      let ?l = "if raised_by (outcome k) = SerialException
                then Log WARNING (SerialAttemptFailed (Suc k))
                else Log ERROR SerialUnexpectedError"
      let ?fs = "[SerialOpen, ?l] @ (if int (Suc k) < ?M then [Sleep ?d] else [])"
      have t1: "trace s1 = trace s @ ?fs"
        using d by (simp add: s1_def serial_failed_trace)
      have fs: "filter connection_verdict ?fs = []"
        "length (filter (\<lambda>e. e = SerialOpen) ?fs) = 1" "\<forall>e \<in> set ?fs. connect_event e"
        by simp_all
      from less[OF m, of s1] obtain es where es:
        "trace (snd (connect_serial_loop cfg outcome (Suc k) s1)) = trace s1 @ es"
        "length (filter connection_verdict es) = 1"
        "length (filter (\<lambda>e. e = SerialOpen) es) \<le> nat (?M - int (Suc k))"
        "\<forall>e \<in> set es. connect_event e" by blast
      have a: "trace (snd (connect_serial_loop cfg outcome k s)) = trace s @ (?fs @ es)"
        unfolding eq es(1) t1 by simp
      have b: "length (filter connection_verdict (?fs @ es)) = 1"
        unfolding filter_append fs(1) using es(2) by simp
      have c: "length (filter (\<lambda>e. e = SerialOpen) (?fs @ es)) \<le> nat (?M - int k)"
        unfolding filter_append length_append fs(2) n using es(3) by simp
      have c': "1 \<le> length (filter (\<lambda>e. e = SerialOpen) (?fs @ es))"
        unfolding filter_append length_append fs(2) by simp
      have e: "\<forall>e \<in> set (?fs @ es). connect_event e"
        using fs(3) es(4) unfolding set_append by blast
      show ?goal using a b c c' e by blast
    qed
  qed
qed

lemma connect_serial_loop_success_open:
  assumes d: "0 \<le> serial_retry_delay cfg"
  shows "fst (connect_serial_loop cfg outcome k s) = Inr True \<Longrightarrow>
         serial_is_open (snd (connect_serial_loop cfg outcome k s))"
proof (induction "nat (max_serial_retries cfg - int k)" arbitrary: k s rule: less_induct)
  case less
  show ?case
  proof (cases "int k < max_serial_retries cfg \<and> running s")
    case False
    with less.prems show ?thesis by (simp add: connect_serial_loop_stop)
  next
    case True
    then have lt: "int k < max_serial_retries cfg" and run: "running s" by simp_all
    have m: "nat (max_serial_retries cfg - int (Suc k)) < nat (max_serial_retries cfg - int k)"
      using lt by simp
    show ?thesis
    proof (cases "outcome k = SerialConnected")
      case True
      show ?thesis
        unfolding connect_serial_loop_ok[where outcome=outcome and k=k, OF lt run True]
        by (simp add: serial_is_open_def)
    next
      case False
      note eq = connect_serial_loop_retry[where outcome=outcome and k=k, OF lt run False d]
      show ?thesis
        using less.prems unfolding eq by (rule less.hyps[OF m])
    qed
  qed
qed

text \<open>
  A call that gives up leaves the port as its last pass left it: open when the pass
  raised after the new connection was assigned, closed when \<^verbatim>\<open>serial.Serial\<close> raised.
\<close>

lemma connect_serial_loop_gave_up_port:
  assumes d: "0 \<le> serial_retry_delay cfg" and fail: "\<forall>j. outcome j \<noteq> SerialConnected"
  shows "int k < max_serial_retries cfg \<Longrightarrow> running s \<Longrightarrow>
     serial_is_open (snd (connect_serial_loop cfg outcome k s))
       = (\<exists>e. outcome (nat (max_serial_retries cfg) - 1) = SerialFlushRaises e)"
proof (induction "nat (max_serial_retries cfg - int k)" arbitrary: k s rule: less_induct)
  case less
  let ?M = "max_serial_retries cfg"
  note lt = less.prems(1) and run = less.prems(2)
  have m: "nat (?M - int (Suc k)) < nat (?M - int k)" using lt by simp
  have f: "outcome k \<noteq> SerialConnected" using fail by simp
  define s1 where "s1 = snd (serial_failed cfg (raised_by (outcome k)) (Suc k)
                               (after_failed_pass (outcome k) s))"
  have eq: "connect_serial_loop cfg outcome k s = connect_serial_loop cfg outcome (Suc k) s1"
    unfolding s1_def
    by (rule connect_serial_loop_retry[where outcome=outcome and k=k, OF lt run f d])
  have r1: "running s1" using run by (simp add: s1_def)
  have o1: "serial_is_open s1 = (\<exists>e. outcome k = SerialFlushRaises e)"
    by (simp add: s1_def after_failed_pass_open)
  show ?case
  proof (cases "int (Suc k) < ?M")
    case True
    show ?thesis unfolding eq by (rule less.hyps[OF m True r1])
  next
    case False
    then have k: "nat ?M - 1 = k" using lt by simp
    have "\<not> (int (Suc k) < ?M \<and> running s1)" using False by simp
    then show ?thesis unfolding eq k by (simp add: connect_serial_loop_stop o1)
  qed
qed

lemma emit_emit [simp]: "emit bs (emit as s) = emit (as @ bs) s"
  by (simp add: emit_def)

lemma filter_none: "\<forall>e \<in> set xs. \<not> P e \<Longrightarrow> filter P xs = []"
  by (induction xs) auto

lemma count_list_none: "x \<notin> set xs \<Longrightarrow> count_list xs x = 0"
  by (induction xs) auto

lemma count_list_append': "count_list (xs @ ys) x = count_list xs x + count_list ys x"
  by (induction xs) auto

text \<open>The first check of a watchdog pass, case by case.\<close>

lemma watchdog_data_check_fresh:
  "\<not> now - last_data_time s > data_timeout cfg \<Longrightarrow>
   watchdog_data_check cfg now outcome s = (None, s)"
  by (simp add: watchdog_data_check_def)

lemma watchdog_data_check_closed:
  "now - last_data_time s > data_timeout cfg \<Longrightarrow> \<not> serial_is_open s \<Longrightarrow>
   watchdog_data_check cfg now outcome s = (None, emit [Log WARNING NoDataReceived] s)"
  by (simp add: watchdog_data_check_def Let_def)

lemma watchdog_data_check_reconnects:
  assumes "now - last_data_time s > data_timeout cfg" "serial_is_open s"
    and "0 \<le> serial_retry_delay cfg"
  shows "watchdog_data_check cfg now outcome s =
     (None, snd (connect_serial cfg outcome
                   (emit [Log WARNING NoDataReceived, Log INFO ReconnectingSerial] s)))"
proof -
  let ?s0 = "emit [Log WARNING NoDataReceived, Log INFO ReconnectingSerial] s"
  obtain b where b: "fst (connect_serial cfg outcome ?s0) = Inr b"
    using connect_serial_loop_returns[OF assms(3), of outcome 0 ?s0]
    unfolding connect_serial_def by blast
  obtain r s1 where c: "connect_serial cfg outcome ?s0 = (r, s1)"
    by (cases "connect_serial cfg outcome ?s0")
  have r: "r = Inr b" using b c by simp
  show ?thesis using assms(1,2)
    by (simp add: watchdog_data_check_def Let_def c r)
qed

text \<open>What follows the first check adds no event of a connection.\<close>

lemma watchdog_liveness_check_events:
  "\<exists>ts. trace (snd (watchdog_liveness_check cfg now s)) = trace s @ ts
     \<and> (\<forall>e \<in> set ts. e \<noteq> SerialOpen \<and> \<not> connection_verdict e
           \<and> e \<noteq> Log WARNING NoDataReceived \<and> e \<noteq> Log INFO ReconnectingSerial)"
  by (auto simp: watchdog_liveness_check_def Let_def py_sleep_def)

lemma watchdog_liveness_check_fields [simp]:
  "serial_connection (snd (watchdog_liveness_check cfg now s)) = serial_connection s"
  "last_data_time (snd (watchdog_liveness_check cfg now s)) = last_data_time s"
  by (simp_all add: watchdog_liveness_check_def Let_def py_sleep_def)

lemma watchdog_cycle_after_check:
  assumes c: "watchdog_data_check cfg now outcome s = (None, s1)"
  shows "\<exists>ts. trace (snd (watchdog_cycle cfg now outcome s)) = trace s1 @ ts
     \<and> (\<forall>e \<in> set ts. e \<noteq> SerialOpen \<and> \<not> connection_verdict e
           \<and> e \<noteq> Log WARNING NoDataReceived \<and> e \<noteq> Log INFO ReconnectingSerial)"
    and "serial_connection (snd (watchdog_cycle cfg now outcome s)) = serial_connection s1"
    and "last_data_time (snd (watchdog_cycle cfg now outcome s)) = last_data_time s1"
proof -
  let ?h = "health_check_interval cfg"
  obtain r s2 where l: "watchdog_liveness_check cfg now s1 = (r, s2)"
    by (cases "watchdog_liveness_check cfg now s1")
  from watchdog_liveness_check_events[of cfg now s1] obtain ts where ts:
    "trace s2 = trace s1 @ ts"
    "\<forall>e \<in> set ts. e \<noteq> SerialOpen \<and> \<not> connection_verdict e
           \<and> e \<noteq> Log WARNING NoDataReceived \<and> e \<noteq> Log INFO ReconnectingSerial"
    unfolding l by auto
  have f: "serial_connection s2 = serial_connection s1" "last_data_time s2 = last_data_time s1"
    using watchdog_liveness_check_fields[of cfg now s1] unfolding l by simp_all
  have p: "watchdog_pass cfg now outcome s = (r, s2)"
    by (simp add: watchdog_pass_def c l)
  let ?us = "case r of None \<Rightarrow> []
             | Some e \<Rightarrow> Log ERROR WatchdogError # (if ?h < 0 then [] else [Sleep ?h])"
  have t: "trace (snd (watchdog_cycle cfg now outcome s)) = trace s1 @ (ts @ ?us)"
    by (cases r) (simp_all add: watchdog_cycle_def p ts(1) py_sleep_trace)
  have u: "\<forall>e \<in> set ?us. e \<noteq> SerialOpen \<and> \<not> connection_verdict e
           \<and> e \<noteq> Log WARNING NoDataReceived \<and> e \<noteq> Log INFO ReconnectingSerial"
    by (cases r) simp_all
  have tu: "\<forall>e \<in> set (ts @ ?us). e \<noteq> SerialOpen \<and> \<not> connection_verdict e
           \<and> e \<noteq> Log WARNING NoDataReceived \<and> e \<noteq> Log INFO ReconnectingSerial"
    using ts(2) u unfolding set_append by blast
  show "\<exists>ts. trace (snd (watchdog_cycle cfg now outcome s)) = trace s1 @ ts
     \<and> (\<forall>e \<in> set ts. e \<noteq> SerialOpen \<and> \<not> connection_verdict e
           \<and> e \<noteq> Log WARNING NoDataReceived \<and> e \<noteq> Log INFO ReconnectingSerial)"
    using t tu by blast
  show "serial_connection (snd (watchdog_cycle cfg now outcome s)) = serial_connection s1"
    by (cases r) (simp_all add: watchdog_cycle_def p f)
  show "last_data_time (snd (watchdog_cycle cfg now outcome s)) = last_data_time s1"
    by (cases r) (simp_all add: watchdog_cycle_def p f)
qed

lemma watchdog_data_check_last_data_time:
  "last_data_time (snd (watchdog_data_check cfg now outcome s)) = last_data_time s"
proof -
  let ?s0 = "emit [Log WARNING NoDataReceived, Log INFO ReconnectingSerial] s"
  obtain r s1 where c: "connect_serial cfg outcome ?s0 = (r, s1)"
    by (cases "connect_serial cfg outcome ?s0")
  have "last_data_time s1 = last_data_time s"
    using connect_serial_fields(5)[of cfg outcome ?s0] unfolding c by simp
  then show ?thesis
    by (cases r) (simp_all add: watchdog_data_check_def Let_def c)
qed

lemma watchdog_last_data_time:
  "last_data_time (snd (watchdog_cycle cfg now outcome s)) = last_data_time s"
proof -
  obtain r s1 where c: "watchdog_data_check cfg now outcome s = (r, s1)"
    by (cases "watchdog_data_check cfg now outcome s")
  have s1: "last_data_time s1 = last_data_time s"
    using watchdog_data_check_last_data_time[of cfg now outcome s] unfolding c by simp
  show ?thesis
  proof (cases r)
    case None
    show ?thesis using watchdog_cycle_after_check(3)[OF c[unfolded None]] s1 by simp
  next
    case (Some x)
    show ?thesis by (simp add: watchdog_cycle_def watchdog_pass_def c Some s1)
  qed
qed

lemma watchdog_stale_open:
  fixes outcome :: "nat \<Rightarrow> serial_outcome"
  assumes stale: "now - last_data_time s > data_timeout cfg" and opn: "serial_is_open s"
    and d: "0 \<le> serial_retry_delay cfg"
  defines "s0 \<equiv> emit [Log WARNING NoDataReceived, Log INFO ReconnectingSerial] s"
  defines "s' \<equiv> snd (watchdog_cycle cfg now outcome s)"
  shows "count_list (new_events s s') (Log WARNING NoDataReceived) = 1"
    and "count_list (new_events s s') (Log INFO ReconnectingSerial) = 1"
    and "length (filter connection_verdict (new_events s s')) = 1"
    and "length (filter (\<lambda>e. e = SerialOpen) (new_events s s')) \<le> nat (max_serial_retries cfg)"
    and "running s \<and> 0 < max_serial_retries cfg \<longrightarrow>
           1 \<le> length (filter (\<lambda>e. e = SerialOpen) (new_events s s'))"
    and "serial_connection s' = serial_connection (snd (connect_serial cfg outcome s0))"
    and "length (filter (\<lambda>e. e = SerialOpen) (new_events s s'))
           = length (filter (\<lambda>e. e = SerialOpen) (new_events s0 (snd (connect_serial cfg outcome s0))))"
proof -
  have dc: "watchdog_data_check cfg now outcome s = (None, snd (connect_serial cfg outcome s0))"
    unfolding s0_def by (rule watchdog_data_check_reconnects[OF stale opn d])
  from connect_serial_loop_trace[OF d, of outcome 0 s0] obtain es where es:
    "trace (snd (connect_serial cfg outcome s0)) = trace s0 @ es"
    "length (filter connection_verdict es) = 1"
    "length (filter (\<lambda>e. e = SerialOpen) es) \<le> nat (max_serial_retries cfg)"
    "0 < max_serial_retries cfg \<and> running s0 \<longrightarrow> 1 \<le> length (filter (\<lambda>e. e = SerialOpen) es)"
    "\<forall>e \<in> set es. connect_event e"
    unfolding connect_serial_def by auto
  from watchdog_cycle_after_check(1)[OF dc]
  obtain ts where ts:
    "trace s' = trace (snd (connect_serial cfg outcome s0)) @ ts"
    "\<forall>e \<in> set ts. e \<noteq> SerialOpen \<and> \<not> connection_verdict e
           \<and> e \<noteq> Log WARNING NoDataReceived \<and> e \<noteq> Log INFO ReconnectingSerial"
    unfolding s'_def by blast
  have ne: "new_events s s' = [Log WARNING NoDataReceived, Log INFO ReconnectingSerial] @ es @ ts"
  proof -
    have "trace s' = trace s @ [Log WARNING NoDataReceived, Log INFO ReconnectingSerial] @ es @ ts"
      using ts(1) es(1) unfolding s0_def by simp
    then show ?thesis by (simp add: new_events_def)
  qed
  have ne0: "new_events s0 (snd (connect_serial cfg outcome s0)) = es"
    by (simp add: new_events_def es(1))
  have es_no: "Log WARNING NoDataReceived \<notin> set es" "Log INFO ReconnectingSerial \<notin> set es"
    using es(5) by auto
  have ts_no: "Log WARNING NoDataReceived \<notin> set ts" "Log INFO ReconnectingSerial \<notin> set ts"
    using ts(2) by auto
  have ts_f: "filter connection_verdict ts = []" "filter (\<lambda>e. e = SerialOpen) ts = []"
    using ts(2) by (auto intro!: filter_none)
  show "count_list (new_events s s') (Log WARNING NoDataReceived) = 1"
    using es_no ts_no by (simp add: ne count_list_append' count_list_none)
  show "count_list (new_events s s') (Log INFO ReconnectingSerial) = 1"
    using es_no ts_no by (simp add: ne count_list_append' count_list_none)
  show "length (filter connection_verdict (new_events s s')) = 1"
    using es(2) ts_f by (simp add: ne)
  show "length (filter (\<lambda>e. e = SerialOpen) (new_events s s')) \<le> nat (max_serial_retries cfg)"
    using es(3) ts_f by (simp add: ne)
  show "running s \<and> 0 < max_serial_retries cfg \<longrightarrow>
           1 \<le> length (filter (\<lambda>e. e = SerialOpen) (new_events s s'))"
    using es(4) ts_f by (simp add: ne s0_def)
  show "serial_connection s' = serial_connection (snd (connect_serial cfg outcome s0))"
    unfolding s'_def by (rule watchdog_cycle_after_check(2)[OF dc])
  show "length (filter (\<lambda>e. e = SerialOpen) (new_events s s'))
           = length (filter (\<lambda>e. e = SerialOpen) (new_events s0 (snd (connect_serial cfg outcome s0))))"
    using ts_f by (simp add: ne ne0)
qed

lemma watchdog_no_reconnect:
  fixes outcome :: "nat \<Rightarrow> serial_outcome"
  assumes "\<not> (now - last_data_time s > data_timeout cfg) \<or> \<not> serial_is_open s"
  defines "s' \<equiv> snd (watchdog_cycle cfg now outcome s)"
  shows "filter (\<lambda>e. e = SerialOpen) (new_events s s') = []"
    and "filter connection_verdict (new_events s s') = []"
    and "count_list (new_events s s') (Log INFO ReconnectingSerial) = 0"
    and "serial_connection s' = serial_connection s"
proof -
  define ws :: "'a event list" where
    "ws = (if now - last_data_time s > data_timeout cfg then [Log WARNING NoDataReceived] else [])"
  have dc: "watchdog_data_check cfg now outcome s = (None, emit ws s)"
  proof (cases "now - last_data_time s > data_timeout cfg")
    case True
    then have "\<not> serial_is_open s" using assms(1) by simp
    then show ?thesis using True by (simp add: watchdog_data_check_closed ws_def)
  next
    case False
    then show ?thesis by (simp add: watchdog_data_check_fresh ws_def)
  qed
  from watchdog_cycle_after_check(1)[OF dc]
  obtain ts where ts: "trace s' = trace s @ ws @ ts"
    "\<forall>e \<in> set ts. e \<noteq> SerialOpen \<and> \<not> connection_verdict e
           \<and> e \<noteq> Log WARNING NoDataReceived \<and> e \<noteq> Log INFO ReconnectingSerial"
    unfolding s'_def by auto
  have ne: "new_events s s' = ws @ ts" by (simp add: new_events_def ts(1))
  have t: "filter (\<lambda>e. e = SerialOpen) ts = []" "filter connection_verdict ts = []"
    "Log INFO ReconnectingSerial \<notin> set ts"
    using ts(2) by (auto intro!: filter_none)
  have w: "filter (\<lambda>e. e = SerialOpen) ws = []" "filter connection_verdict ws = []"
    "Log INFO ReconnectingSerial \<notin> set ws"
    by (simp_all add: ws_def)
  show "filter (\<lambda>e. e = SerialOpen) (new_events s s') = []"
    by (simp add: ne t w)
  show "filter connection_verdict (new_events s s') = []"
    by (simp add: ne t w)
  show "count_list (new_events s s') (Log INFO ReconnectingSerial) = 0"
    by (simp add: ne count_list_append' count_list_none t w)
  show "serial_connection s' = serial_connection s"
    unfolding s'_def using watchdog_cycle_after_check(2)[OF dc] by simp
qed




section \<open>Properties of the sender thread\<close>

lemma send_to_influxdb_result:
  "send_to_influxdb utcnow ok r timestamp s =
     (sendable r \<and> ok,
      emit [Send r (case timestamp of None \<Rightarrow> utcnow | Some t \<Rightarrow> t) (sendable r \<and> ok),
            if sendable r \<and> ok then Log DEBUG DataSent else Log ERROR SendFailed] s)"
  by (simp add: send_to_influxdb_def Let_def)

lemma queue_data_unfold:
  "queue_data N t r ts s =
     (let s1 = (if queue_full N (data_queue s) \<and> data_queue s \<noteq> []
                then emit [Log WARNING QueueFullDropOldest] (s\<lparr>data_queue := tl (data_queue s)\<rparr>)
                else s);
          item = (r, case ts of None \<Rightarrow> t | Some u \<Rightarrow> u)
      in if queue_full N (data_queue s1) then emit [Log ERROR QueueFailed] s1
         else emit [Log DEBUG (QueuedDataPoint (Suc (length (data_queue s1))))]
                (s1\<lparr>data_queue := data_queue s1 @ [item]\<rparr>))"
  by (cases "data_queue s") (simp_all add: queue_data_def get_nowait_def put_nowait_def Let_def)

lemma queue_data_queue_only:
  "data_queue s = data_queue u \<Longrightarrow>
   data_queue (queue_data N t r ts s) = data_queue (queue_data N t r ts u)"
  by (simp add: queue_data_unfold Let_def)

lemma queue_data_no_send:
  "filter is_send (trace (queue_data N t r ts s)) = filter is_send (trace s)"
  by (simp add: queue_data_unfold Let_def)

lemma queue_data_fields [simp]:
  "consecutive_errors (queue_data N t r ts s) = consecutive_errors s"
  "exited (queue_data N t r ts s) = exited s"
  "running (queue_data N t r ts s) = running s"
  "influx_client (queue_data N t r ts s) = influx_client s"
  "serial_connection (queue_data N t r ts s) = serial_connection s"
  "last_data_time (queue_data N t r ts s) = last_data_time s"
  by (simp_all add: queue_data_unfold Let_def)

lemma enqueue_all_queue_only:
  "data_queue s = data_queue t \<Longrightarrow>
   data_queue (enqueue_all N items s) = data_queue (enqueue_all N items t)"
proof (induction items arbitrary: s t)
  case Nil
  then show ?case by simp
next
  case (Cons a items)
  obtain r ts where a: "a = (r, ts)" by (cases a)
  have "data_queue (queue_data N ts r None s) = data_queue (queue_data N ts r None t)"
    using Cons.prems by (rule queue_data_queue_only)
  then show ?case unfolding a enqueue_all.simps by (rule Cons.IH)
qed

lemma enqueue_all_no_send:
  "filter is_send (trace (enqueue_all N items s)) = filter is_send (trace s)"
proof (induction items arbitrary: s)
  case Nil
  then show ?case by simp
next
  case (Cons a items)
  obtain r ts where a: "a = (r, ts)" by (cases a)
  have "filter is_send (trace (queue_data N ts r None s)) = filter is_send (trace s)"
    by (simp add: queue_data_no_send)
  then show ?case unfolding a by (simp add: Cons.IH)
qed

lemma sender_batch_result:
  "fst (sender_batch utcnow write_ok n k sent failed s)
       + length (batch_failed write_ok k (take n (data_queue s)))
     = sent + length (take n (data_queue s))
   \<and> fst (snd (sender_batch utcnow write_ok n k sent failed s))
     = failed @ batch_failed write_ok k (take n (data_queue s))
   \<and> data_queue (snd (snd (sender_batch utcnow write_ok n k sent failed s)))
     = drop n (data_queue s)
   \<and> filter is_send (trace (snd (snd (sender_batch utcnow write_ok n k sent failed s))))
     = filter is_send (trace s) @ batch_sends write_ok k (take n (data_queue s))"
proof (induction n arbitrary: k sent failed s)
  case 0
  show ?case by simp
next
  case (Suc n)
  show ?case
  proof (cases "data_queue s")
    case Nil
    then show ?thesis by (simp add: get_nowait_def)
  next
    case (Cons item q')
    obtain r ts where item: "item = (r, ts)" by (cases item)
    define ok where "ok = (sendable r \<and> write_ok k)"
    define s' where "s' = emit [Send r ts ok, if ok then Log DEBUG DataSent else Log ERROR SendFailed]
                 (s\<lparr>data_queue := q'\<rparr>)"
    have q: "data_queue s' = q'" by (simp add: s'_def)
    have t: "filter is_send (trace s') = filter is_send (trace s) @ [Send r ts ok]"
      by (simp add: s'_def)
    have snd: "send_to_influxdb (utcnow k) (write_ok k) r (Some ts) (s\<lparr>data_queue := q'\<rparr>) = (ok, s')"
      by (simp add: send_to_influxdb_result ok_def s'_def)
    have bf: "batch_failed write_ok k (take (Suc n) (data_queue s))
                = (if ok then [] else [(r, ts)]) @ batch_failed write_ok (Suc k) (take n q')"
      and bs: "batch_sends write_ok k (take (Suc n) (data_queue s))
                = Send r ts ok # batch_sends write_ok (Suc k) (take n q')"
      and dq: "drop (Suc n) (data_queue s) = drop n q'"
      and lq: "length (take (Suc n) (data_queue s)) = Suc (length (take n q'))"
      by (simp_all add: Cons item ok_def)
    show ?thesis
    proof (cases ok)
      case True
      have eq: "sender_batch utcnow write_ok (Suc n) k sent failed s
                  = sender_batch utcnow write_ok n (Suc k) (Suc sent) failed s'"
        using True by (simp add: Cons item get_nowait_def snd)
      show ?thesis
        unfolding eq bf bs dq lq using Suc.IH[of "Suc k" "Suc sent" failed s'] True
        by (simp add: q t)
    next
      case False
      have eq: "sender_batch utcnow write_ok (Suc n) k sent failed s
                  = sender_batch utcnow write_ok n (Suc k) sent (failed @ [(r, ts)]) s'"
        using False by (simp add: Cons item get_nowait_def snd)
      show ?thesis
        unfolding eq bf bs dq lq using Suc.IH[of "Suc k" sent "failed @ [(r, ts)]" s'] False
        by (simp add: q t)
    qed
  qed
qed

lemma requeue_failed_full:
  "queue_full N (data_queue s) \<Longrightarrow>
   requeue_failed N (item # failed) s
     = requeue_failed N failed (emit [Log WARNING QueueFullDropFailed] s)"
  by (simp add: put_nowait_def)

lemma requeue_failed_room:
  "\<not> queue_full N (data_queue s) \<Longrightarrow>
   requeue_failed N (item # failed) s
     = requeue_failed N failed (s\<lparr>data_queue := data_queue s @ [item]\<rparr>)"
  by (simp add: put_nowait_def)

lemma requeue_failed_queue:
  assumes "0 < N"
  shows "data_queue (requeue_failed N failed s)
           = data_queue s @ take (nat N - length (data_queue s)) failed"
proof (induction failed arbitrary: s)
  case Nil
  show ?case by simp
next
  case (Cons item failed)
  show ?case
  proof (cases "queue_full N (data_queue s)")
    case True
    then have "nat N \<le> length (data_queue s)" unfolding queue_full_def by linarith
    then have z: "nat N - length (data_queue s) = 0" by simp
    have "data_queue (requeue_failed N (item # failed) s) = data_queue s @ take 0 failed"
      unfolding requeue_failed_full[OF True]
      using Cons.IH[of "emit [Log WARNING QueueFullDropFailed] s"] by (simp add: z)
    then show ?thesis by (simp add: z)
  next
    case False
    then have lt: "length (data_queue s) < nat N" using assms unfolding queue_full_def by linarith
    have m: "nat N - length (data_queue s) = Suc (nat N - Suc (length (data_queue s)))"
      using lt by (rule Suc_diff_Suc[symmetric])
    have "data_queue (requeue_failed N (item # failed) s)
            = (data_queue s @ [item]) @ take (nat N - Suc (length (data_queue s))) failed"
      unfolding requeue_failed_room[OF False]
      using Cons.IH[of "s\<lparr>data_queue := data_queue s @ [item]\<rparr>"] by simp
    also have "\<dots> = data_queue s @ take (Suc (nat N - Suc (length (data_queue s)))) (item # failed)"
      by simp
    finally show ?thesis unfolding m .
  qed
qed

lemma requeue_failed_no_send:
  "filter is_send (trace (requeue_failed N failed s)) = filter is_send (trace s)"
proof (induction failed arbitrary: s)
  case Nil
  show ?case by simp
next
  case (Cons item failed)
  show ?case
  proof (cases "queue_full N (data_queue s)")
    case True
    show ?thesis unfolding requeue_failed_full[OF True]
      using Cons.IH[of "emit [Log WARNING QueueFullDropFailed] s"] by simp
  next
    case False
    show ?thesis unfolding requeue_failed_room[OF False]
      using Cons.IH[of "s\<lparr>data_queue := data_queue s @ [item]\<rparr>"] by simp
  qed
qed

lemma batch_failed_length: "length (batch_failed write_ok k items) \<le> length items"
proof (induction items arbitrary: k)
  case Nil
  show ?case by simp
next
  case (Cons a items)
  obtain r ts where a: "a = (r, ts)" by (cases a)
  show ?case using Cons.IH[of "Suc k"] by (simp add: a)
qed

text \<open>The points of a trace, and those a batch writes.\<close>

lemma writes_append: "writes (xs @ ys) = writes xs @ writes ys"
  by (simp add: writes_def List.map_filter_def)

lemma writes_filter: "writes (filter is_send es) = writes es"
proof (induction es)
  case Nil
  show ?case by simp
next
  case (Cons e es)
  show ?case using Cons.IH by (cases e) (simp_all add: writes_def map_filter_simps)
qed

lemma writes_batch_sends: "writes (batch_sends write_ok k items) = items"
proof (induction items arbitrary: k)
  case Nil
  show ?case by (simp add: writes_def map_filter_simps)
next
  case (Cons a items)
  obtain r ts where a: "a = (r, ts)" by (cases a)
  show ?case using Cons.IH[of "Suc k"] by (simp add: a writes_def map_filter_simps)
qed

lemma writes_from_sends:
  assumes "filter is_send (trace s') = filter is_send (trace s) @ batch_sends write_ok k items"
  shows "writes (trace s') = writes (trace s) @ items"
proof -
  have "writes (trace s') = writes (filter is_send (trace s'))" by (simp add: writes_filter)
  also have "\<dots> = writes (filter is_send (trace s)) @ writes (batch_sends write_ok k items)"
    unfolding assms by (rule writes_append)
  finally show ?thesis by (simp add: writes_filter writes_batch_sends)
qed

text \<open>A pass of the sender over a queue that is not empty, with a client.\<close>

lemma sender_cycle_result:
  fixes arrivals :: "('v reading \<times> int) list" and s :: "'v reading daemon"
  assumes N: "0 < N" and ne: "data_queue s \<noteq> []" and cl: "influx_client s"
  defines "batch \<equiv> take (min 10 (length (data_queue s))) (data_queue s)"
  defines "q1 \<equiv> data_queue (enqueue_all N arrivals
                   (s\<lparr>data_queue := drop (min 10 (length (data_queue s))) (data_queue s)\<rparr>))"
  shows "fst (data_sender_worker_cycle cfg N utcnow write_ok arrivals s) = None"
    and "filter is_send (trace (snd (data_sender_worker_cycle cfg N utcnow write_ok arrivals s)))
           = filter is_send (trace s) @ batch_sends write_ok 0 batch"
    and "data_queue (snd (data_sender_worker_cycle cfg N utcnow write_ok arrivals s))
           = q1 @ take (nat N - length q1) (batch_failed write_ok 0 batch)"
proof -
  let ?n = "min 10 (length (data_queue s))"
  obtain sent failed s1 where b: "sender_batch utcnow write_ok ?n 0 0 [] s = (sent, failed, s1)"
    by (cases "sender_batch utcnow write_ok ?n 0 0 [] s") auto
  from sender_batch_result[of utcnow write_ok ?n 0 0 "[]" s]
  have r: "failed = batch_failed write_ok 0 batch" "data_queue s1 = drop ?n (data_queue s)"
    "filter is_send (trace s1) = filter is_send (trace s) @ batch_sends write_ok 0 batch"
    by (simp_all add: b batch_def)
  let ?s2 = "requeue_failed N failed (enqueue_all N arrivals s1)"
  have p: "sender_pass cfg N utcnow write_ok arrivals s
             = (None, if sent > 0 then emit [Log INFO (SentQueued sent)] ?s2 else ?s2)"
    using ne cl by (simp add: sender_pass_def b Let_def)
  have c: "data_sender_worker_cycle cfg N utcnow write_ok arrivals s
             = (None, if sent > 0 then emit [Log INFO (SentQueued sent)] ?s2 else ?s2)"
    by (simp add: data_sender_worker_cycle_def p)
  have q1: "data_queue (enqueue_all N arrivals s1) = q1"
    unfolding q1_def by (rule enqueue_all_queue_only) (simp add: r(2))
  show "fst (data_sender_worker_cycle cfg N utcnow write_ok arrivals s) = None"
    by (simp add: c)
  show "filter is_send (trace (snd (data_sender_worker_cycle cfg N utcnow write_ok arrivals s)))
           = filter is_send (trace s) @ batch_sends write_ok 0 batch"
    by (simp add: c requeue_failed_no_send enqueue_all_no_send r(3))
  show "data_queue (snd (data_sender_worker_cycle cfg N utcnow write_ok arrivals s))
           = q1 @ take (nat N - length q1) (batch_failed write_ok 0 batch)"
    by (simp add: c requeue_failed_queue[OF N] q1 r(1))
qed

lemma sender_cycle_undisturbed:
  assumes N: "0 < N" and ne: "data_queue s \<noteq> []" and cl: "influx_client s"
    and le: "int (length (data_queue s)) \<le> N"
  shows "data_queue (snd (data_sender_worker_cycle cfg N utcnow write_ok [] s))
           = drop (min 10 (length (data_queue s))) (data_queue s)
             @ batch_failed write_ok 0 (take (min 10 (length (data_queue s))) (data_queue s))"
proof -
  let ?n = "min 10 (length (data_queue s))"
  let ?f = "batch_failed write_ok 0 (take ?n (data_queue s))"
  have "length ?f \<le> ?n" using batch_failed_length[of write_ok 0 "take ?n (data_queue s)"] by simp
  moreover have "length (data_queue s) \<le> nat N" using le by linarith
  moreover have "length (drop ?n (data_queue s)) = length (data_queue s) - ?n" by simp
  ultimately have "length ?f \<le> nat N - length (drop ?n (data_queue s))" by linarith
  then show ?thesis
    using sender_cycle_result(3)[OF N ne cl, where arrivals="[]" and cfg=cfg
        and utcnow=utcnow and write_ok=write_ok] by simp
qed

lemma sender_cycle_no_client:
  "data_queue s \<noteq> [] \<Longrightarrow> \<not> influx_client s \<Longrightarrow> 0 \<le> influx_retry_delay cfg \<Longrightarrow>
   data_sender_worker_cycle cfg N utcnow write_ok arrivals s
     = (None, emit [Sleep (influx_retry_delay cfg)] s)"
  by (simp add: data_sender_worker_cycle_def sender_pass_def py_sleep_def)

lemma cleanup_drain_sends:
  "filter is_send (trace (cleanup_drain utcnow write_ok n k s))
     = filter is_send (trace s) @ batch_sends write_ok k (take n (data_queue s))"
proof (induction n arbitrary: k s)
  case 0
  show ?case by simp
next
  case (Suc n)
  show ?case
  proof (cases "data_queue s")
    case Nil
    then show ?thesis by (simp add: get_nowait_def)
  next
    case (Cons item q')
    obtain r ts where item: "item = (r, ts)" by (cases item)
    define s' where "s' = snd (send_to_influxdb (utcnow k) (write_ok k) r (Some ts) (s\<lparr>data_queue := q'\<rparr>))"
    have q: "data_queue s' = q'"
      and t: "filter is_send (trace s') = filter is_send (trace s) @ [Send r ts (sendable r \<and> write_ok k)]"
      by (simp_all add: s'_def send_to_influxdb_result)
    have eq: "cleanup_drain utcnow write_ok (Suc n) k s = cleanup_drain utcnow write_ok n (Suc k) s'"
      by (simp add: Cons item get_nowait_def s'_def)
    show ?thesis unfolding eq using Suc.IH[of "Suc k" s'] by (simp add: q t Cons item)
  qed
qed

lemma cleanup_sends:
  assumes "influx_client s" "data_queue s \<noteq> []"
  shows "filter is_send (trace (cleanup utcnow write_ok s))
     = filter is_send (trace s)
       @ batch_sends write_ok 0 (take (min 50 (length (data_queue s))) (data_queue s))"
  using assms by (simp add: cleanup_def Let_def cleanup_drain_sends)




section \<open>Properties of the main loop\<close>

text \<open>The statements of the inner \<^verbatim>\<open>try\<close>, case by case.\<close>

lemma read_and_relay_idle:
  "serial_input inp = NothingWaiting \<Longrightarrow> read_and_relay N parse inp s = (None, s)"
  "serial_input inp = ReadLine [] \<Longrightarrow> read_and_relay N parse inp s = (None, s)"
  "serial_input inp = ReadRaises e \<Longrightarrow> read_and_relay N parse inp s = (Some e, s)"
  by (simp_all add: read_and_relay_def)

lemma read_and_relay_unparsed:
  assumes "serial_input inp = ReadLine line" "line \<noteq> []"
  shows "parse line = Inl e \<Longrightarrow>
           read_and_relay N parse inp s = (Some e, emit [Log DEBUG Received] s)"
    and "parse line = Inr None \<or> parse line = Inr (Some []) \<Longrightarrow>
           read_and_relay N parse inp s = (None, emit [Log DEBUG Received, Log DEBUG NotParsed] s)"
  using assms by (auto simp: read_and_relay_def Let_def)

lemma read_and_relay_parsed:
  fixes s :: "'v reading daemon" and inp :: iteration_input
  assumes "serial_input inp = ReadLine line" "line \<noteq> []" "parse line = Inr (Some wd)" "wd \<noteq> []"
  defines "s2 \<equiv> emit [Log DEBUG Received, Log INFO Parsed] (s\<lparr>last_data_time := now_data inp\<rparr>)"
  shows "read_and_relay N parse inp s =
     (if influx_client s then
        (if sendable wd \<and> write_result inp
         then (None, (emit [Send wd (utcnow_send inp) True, Log DEBUG DataSent] s2)
                        \<lparr>consecutive_errors := 0\<rparr>)
         else (None, queue_data N (utcnow_queue inp) wd None
                       (emit [Send wd (utcnow_send inp) False, Log ERROR SendFailed,
                              Log WARNING SendFailedQueuing] s2)))
      else (None, queue_data N (utcnow_queue inp) wd None
                    (emit [Log WARNING SendFailedQueuing] s2)))"
proof -
  have e: "emit [Log INFO Parsed] ((emit [Log DEBUG Received] s)\<lparr>last_data_time := now_data inp\<rparr>)
             = s2"
    by (simp add: s2_def emit_def)
  have c: "influx_client s2 = influx_client s" by (simp add: s2_def)
  have r: "read_and_relay N parse inp s =
     (if influx_client s then
        (case send_to_influxdb (utcnow_send inp) (write_result inp) wd None s2 of
           (ok, s3) \<Rightarrow>
             if ok then (None, s3\<lparr>consecutive_errors := 0\<rparr>)
             else (None, queue_data N (utcnow_queue inp) wd None
                           (emit [Log WARNING SendFailedQueuing] s3)))
      else (None, queue_data N (utcnow_queue inp) wd None
                    (emit [Log WARNING SendFailedQueuing] s2)))"
    unfolding read_and_relay_def Let_def e by (simp add: assms(1-4) c)
  show ?thesis
  proof (cases "sendable wd \<and> write_result inp")
    case True
    then show ?thesis unfolding r by (simp add: send_to_influxdb_result)
  next
    case False
    then have f: "(sendable wd \<and> write_result inp) = False" by simp
    show ?thesis unfolding r send_to_influxdb_result f by simp
  qed
qed

lemma queue_data_stamps:
  assumes "0 < N" "int (length (data_queue s)) \<le> N"
  shows "data_queue (queue_data N t r None s)
           = (if queue_full N (data_queue s) then tl (data_queue s) else data_queue s) @ [(r, t)]"
proof -
  have "queue_full N (data_queue s) = (int (length (data_queue s)) = N)"
    using assms by (auto simp: queue_full_def)
  then show ?thesis using queue_data_queue[OF assms, of t r None] by simp
qed

text \<open>
  What the inner \<^verbatim>\<open>try\<close> does with a parsed reading: it is sent and the queue is left
  alone, or it is queued, with the clock of the call of \<^verbatim>\<open>queue_data\<close>.
\<close>

lemma read_and_relay_parsed_sent:
  fixes s :: "'v reading daemon"
  assumes "serial_input inp = ReadLine line" "line \<noteq> []" "parse line = Inr (Some wd)" "wd \<noteq> []"
    and "influx_client s" "sendable wd \<and> write_result inp"
  shows "fst (read_and_relay N parse inp s) = None"
    and "data_queue (snd (read_and_relay N parse inp s)) = data_queue s"
    and "filter is_send (trace (snd (read_and_relay N parse inp s)))
           = filter is_send (trace s) @ [Send wd (utcnow_send inp) True]"
    and "consecutive_errors (snd (read_and_relay N parse inp s)) = 0"
  unfolding read_and_relay_parsed[where parse=parse and line=line and N=N and s=s, OF assms(1-4)]
  using assms(5,6) by simp_all

lemma read_and_relay_parsed_queued:
  fixes s :: "'v reading daemon"
  assumes "serial_input inp = ReadLine line" "line \<noteq> []" "parse line = Inr (Some wd)" "wd \<noteq> []"
    and "\<not> (influx_client s \<and> sendable wd \<and> write_result inp)"
    and "0 < N" "int (length (data_queue s)) \<le> N"
  shows "fst (read_and_relay N parse inp s) = None"
    and "data_queue (snd (read_and_relay N parse inp s))
           = (if queue_full N (data_queue s) then tl (data_queue s) else data_queue s)
             @ [(wd, utcnow_queue inp)]"
    and "filter is_send (trace (snd (read_and_relay N parse inp s)))
           = filter is_send (trace s)
             @ (if influx_client s then [Send wd (utcnow_send inp) False] else [])"
    and "consecutive_errors (snd (read_and_relay N parse inp s)) = consecutive_errors s"
proof -
  let ?s2 = "emit [Log DEBUG Received, Log INFO Parsed] (s\<lparr>last_data_time := now_data inp\<rparr>)"
  let ?pre = "if influx_client s
              then [Send wd (utcnow_send inp) False, Log ERROR SendFailed,
                    Log WARNING SendFailedQueuing]
              else [Log WARNING SendFailedQueuing]"
  have r: "read_and_relay N parse inp s
             = (None, queue_data N (utcnow_queue inp) wd None (emit ?pre ?s2))"
    unfolding read_and_relay_parsed[where parse=parse and line=line and N=N and s=s, OF assms(1-4)]
    using assms(5) by auto
  have q: "data_queue (emit ?pre ?s2) = data_queue s" by simp
  have l: "int (length (data_queue (emit ?pre ?s2))) \<le> N" using assms(7) by simp
  show "fst (read_and_relay N parse inp s) = None" by (simp add: r)
  show "data_queue (snd (read_and_relay N parse inp s))
           = (if queue_full N (data_queue s) then tl (data_queue s) else data_queue s)
             @ [(wd, utcnow_queue inp)]"
    unfolding r snd_conv queue_data_stamps[OF assms(6) l] q by simp
  show "filter is_send (trace (snd (read_and_relay N parse inp s)))
           = filter is_send (trace s)
             @ (if influx_client s then [Send wd (utcnow_send inp) False] else [])"
    unfolding r snd_conv queue_data_no_send by simp
  show "consecutive_errors (snd (read_and_relay N parse inp s)) = consecutive_errors s"
    unfolding r by simp
qed

text \<open>A reconnection to InfluxDB whose passes raise before a client is built leaves none.\<close>

lemma connect_influxdb_loop_no_client:
  assumes d: "0 \<le> influx_retry_delay cfg" and fail: "\<forall>j. outcome j = InfluxRaisesBefore"
  shows "influx_client (snd (connect_influxdb_loop cfg outcome k s)) = influx_client s"
proof (induction "nat (max_influx_retries cfg - int k)" arbitrary: k s rule: less_induct)
  case less
  show ?case
  proof (cases "int k < max_influx_retries cfg \<and> running s")
    case False
    show ?thesis unfolding connect_influxdb_loop_stop[OF False] by simp
  next
    case True
    then have lt: "int k < max_influx_retries cfg" and run: "running s" by simp_all
    have m: "nat (max_influx_retries cfg - int (Suc k)) < nat (max_influx_retries cfg - int k)"
      using lt by simp
    have o: "outcome k = InfluxRaisesBefore" using fail by simp
    then have f: "outcome k \<noteq> InfluxConnected" by simp
    note eq = connect_influxdb_loop_retry[where outcome=outcome and k=k, OF lt run f d]
    show ?thesis
      unfolding eq less.hyps[OF m]
      by (simp add: o after_failed_influx_pass_def)
  qed
qed

text \<open>The closing check of a pass, case by case.\<close>

lemma check_consecutive_errors_below:
  "consecutive_errors s < max_consecutive_errors \<Longrightarrow>
   check_consecutive_errors cfg s = py_sleep (read_interval cfg) s"
  by (simp add: check_consecutive_errors_def)

lemma check_consecutive_errors_restart:
  "max_consecutive_errors \<le> consecutive_errors s \<Longrightarrow> restart_on_hang cfg \<Longrightarrow>
   check_consecutive_errors cfg s
     = (None, (emit [Log ERROR (TooManyErrors (consecutive_errors s)), Exit 1] s)
                \<lparr>exited := True\<rparr>)"
  by (simp add: check_consecutive_errors_def Let_def)

lemma check_consecutive_errors_reset:
  "max_consecutive_errors \<le> consecutive_errors s \<Longrightarrow> \<not> restart_on_hang cfg \<Longrightarrow>
   check_consecutive_errors cfg s
     = py_sleep (read_interval cfg)
         (emit [Log ERROR (TooManyErrors (consecutive_errors s)), Sleep 60]
            (s\<lparr>consecutive_errors := 0\<rparr>))"
  by (simp add: check_consecutive_errors_def Let_def py_sleep_def emit_def)

lemma check_consecutive_errors_frame [simp]:
  "data_queue (snd (check_consecutive_errors cfg s)) = data_queue s"
  "filter is_send (trace (snd (check_consecutive_errors cfg s))) = filter is_send (trace s)"
proof -
  consider "consecutive_errors s < max_consecutive_errors"
    | "max_consecutive_errors \<le> consecutive_errors s" "restart_on_hang cfg"
    | "max_consecutive_errors \<le> consecutive_errors s" "\<not> restart_on_hang cfg"
    by linarith
  then have "data_queue (snd (check_consecutive_errors cfg s)) = data_queue s
    \<and> filter is_send (trace (snd (check_consecutive_errors cfg s))) = filter is_send (trace s)"
  proof cases
    case 1
    then show ?thesis by (simp add: check_consecutive_errors_below)
  next
    case 2
    then show ?thesis by (simp add: check_consecutive_errors_restart)
  next
    case 3
    then show ?thesis by (simp add: check_consecutive_errors_reset)
  qed
  then show "data_queue (snd (check_consecutive_errors cfg s)) = data_queue s"
    and "filter is_send (trace (snd (check_consecutive_errors cfg s))) = filter is_send (trace s)"
    by simp_all
qed

text \<open>The handler of the outer \<^verbatim>\<open>try\<close> sends nothing and leaves the queue alone.\<close>

lemma run_iteration_frame:
  "data_queue (snd (run_iteration cfg N parse inp s))
     = data_queue (snd (iteration_body cfg N parse inp s))"
  "filter is_send (trace (snd (run_iteration cfg N parse inp s)))
     = filter is_send (trace (snd (iteration_body cfg N parse inp s)))"
proof -
  obtain r s1 where b: "iteration_body cfg N parse inp s = (r, s1)"
    by (cases "iteration_body cfg N parse inp s")
  show "data_queue (snd (run_iteration cfg N parse inp s))
     = data_queue (snd (iteration_body cfg N parse inp s))"
    by (cases r) (simp_all add: run_iteration_def b)
  show "filter is_send (trace (snd (run_iteration cfg N parse inp s)))
     = filter is_send (trace (snd (iteration_body cfg N parse inp s)))"
    by (cases r) (simp_all add: run_iteration_def b)
qed

text \<open>
  A pass that starts with the serial port open: the state in which it reads, and what
  follows the read.
\<close>

lemma iteration_body_open:
  fixes s :: "'v reading daemon" and inp :: iteration_input and cfg :: config
  assumes opn: "serial_is_open s"
    and c: "influx_client s \<or> 0 \<le> influx_retry_delay cfg"
  defines "s1 \<equiv> s\<lparr>last_heartbeat := now_heartbeat inp\<rparr>"
  defines "s3 \<equiv> (if influx_client s then s1
                  else snd (connect_influxdb cfg (influx_reconnect inp)
                              (emit [Log INFO ReconnectingInflux] s1)))"
  shows "iteration_body cfg N parse inp s =
           (case read_serial cfg N parse inp s3 of
              (Some x, s4) \<Rightarrow> (Some x, s4)
            | (None, s4) \<Rightarrow> check_consecutive_errors cfg s4)"
    and "serial_is_open s3" and "data_queue s3 = data_queue s"
    and "filter is_send (trace s3) = filter is_send (trace s)"
    and "consecutive_errors s3 = consecutive_errors s"
    and "exited s3 = exited s"
    and "influx_client s \<Longrightarrow> s3 = s1"
proof -
  have o1: "serial_is_open s1" using opn by (simp add: s1_def serial_is_open_def)
  show o3: "serial_is_open s3"
    using o1 by (simp add: s3_def serial_is_open_def)
  show "data_queue s3 = data_queue s" by (simp add: s3_def s1_def)
  show "filter is_send (trace s3) = filter is_send (trace s)" by (simp add: s3_def s1_def)
  show "consecutive_errors s3 = consecutive_errors s" by (simp add: s3_def s1_def)
  show "exited s3 = exited s" by (simp add: s3_def s1_def)
  show "influx_client s \<Longrightarrow> s3 = s1" by (simp add: s3_def)
  obtain r s4 where rs: "read_serial cfg N parse inp s3 = (r, s4)"
    by (cases "read_serial cfg N parse inp s3")
  show "iteration_body cfg N parse inp s =
           (case read_serial cfg N parse inp s3 of
              (Some x, s4) \<Rightarrow> (Some x, s4)
            | (None, s4) \<Rightarrow> check_consecutive_errors cfg s4)"
  proof (cases "influx_client s")
    case True
    then have e: "s3 = s1" by (simp add: s3_def)
    have i1: "influx_client s1" using True by (simp add: s1_def)
    show ?thesis
      unfolding iteration_body_def Let_def s1_def[symmetric]
      using o1 i1 rs[unfolded e] by (cases r) (simp_all add: e)
  next
    case False
    then have d: "0 \<le> influx_retry_delay cfg" using c by simp
    let ?p = "connect_influxdb cfg (influx_reconnect inp) (emit [Log INFO ReconnectingInflux] s1)"
    have e: "s3 = snd ?p" using False by (simp add: s3_def)
    have i1: "\<not> influx_client s1" using False by (simp add: s1_def)
    obtain b where b: "fst ?p = Inr b"
      using connect_influxdb_loop_returns[OF d, of "influx_reconnect inp" 0
          "emit [Log INFO ReconnectingInflux] s1"]
      unfolding connect_influxdb_def by blast
    have p: "?p = (Inr b, s3)" using b e by (cases ?p) simp
    show ?thesis
      unfolding iteration_body_def Let_def s1_def[symmetric]
      using o1 i1 o3 rs by (cases r) (simp_all add: p)
  qed
qed

lemma run_iteration_parsed:
  fixes s :: "'v reading daemon" and inp :: iteration_input and cfg :: config
  assumes opn: "serial_is_open s"
    and c: "influx_client s \<or> 0 \<le> influx_retry_delay cfg"
    and p: "serial_input inp = ReadLine line" "line \<noteq> []" "parse line = Inr (Some wd)" "wd \<noteq> []"
  defines "s3 \<equiv> (if influx_client s then s\<lparr>last_heartbeat := now_heartbeat inp\<rparr>
                  else snd (connect_influxdb cfg (influx_reconnect inp)
                              (emit [Log INFO ReconnectingInflux]
                                 (s\<lparr>last_heartbeat := now_heartbeat inp\<rparr>))))"
  shows "data_queue (snd (run_iteration cfg N parse inp s))
           = data_queue (snd (read_and_relay N parse inp s3))"
    and "filter is_send (trace (snd (run_iteration cfg N parse inp s)))
           = filter is_send (trace (snd (read_and_relay N parse inp s3)))"
    and "data_queue s3 = data_queue s"
    and "filter is_send (trace s3) = filter is_send (trace s)"
proof -
  note b = iteration_body_open(1)[where inp=inp and N=N and parse=parse, OF opn c, folded s3_def]
    iteration_body_open(2-4)[where inp=inp, OF opn c, folded s3_def]
  have n: "fst (read_and_relay N parse inp s3) = None"
    unfolding read_and_relay_parsed[where parse=parse and line=line and N=N and s=s3, OF p] by simp
  obtain s4 where rr: "read_and_relay N parse inp s3 = (None, s4)"
    using n by (cases "read_and_relay N parse inp s3") simp
  have rs: "read_serial cfg N parse inp s3 = (None, s4)"
    by (simp add: read_serial_def rr)
  have body: "iteration_body cfg N parse inp s = check_consecutive_errors cfg s4"
    unfolding b(1) rs by simp
  show "data_queue (snd (run_iteration cfg N parse inp s))
           = data_queue (snd (read_and_relay N parse inp s3))"
    unfolding run_iteration_frame(1) body rr by simp
  show "filter is_send (trace (snd (run_iteration cfg N parse inp s)))
           = filter is_send (trace (snd (read_and_relay N parse inp s3)))"
    unfolding run_iteration_frame(2) body rr by simp
  show "data_queue s3 = data_queue s" by (rule b(3))
  show "filter is_send (trace s3) = filter is_send (trace s)" by (rule b(4))
qed


lemma line0_parsed:
  "WeatherDaemon_parse_weather_data decimal_literal ''T:22.6 H:50.1 P:1011.9 WS:0.00''
     = Inr (Some reading0)"
  by (simp add: pattern_eval decimal_literal_def unsigned_decimal_def reading0_def)


lemma writes_from_filter:
  assumes "filter is_send (trace s') = filter is_send (trace s) @ es"
  shows "writes (trace s') = writes (trace s) @ writes es"
proof -
  have "writes (trace s') = writes (filter is_send (trace s'))" by (simp add: writes_filter)
  also have "\<dots> = writes (filter is_send (trace s)) @ writes es"
    unfolding assms by (rule writes_append)
  finally show ?thesis by (simp add: writes_filter)
qed

lemma writes_single [simp]: "writes [Send r ts ok] = [(r, ts)]" "writes [] = []"
  by (simp_all add: writes_def map_filter_simps)

text \<open>
  Claim C10. A reading whose immediate send fails is put at the back of the queue with
  the clock of the call of \<^verbatim>\<open>queue_data\<close>; the send that failed carried the clock of the
  call of \<^verbatim>\<open>send_to_influxdb\<close>, as every immediate send does. A pass of the sender
  thread writes the first ten queued items, and the last drain of \<^verbatim>\<open>cleanup\<close> the first
  fifty, each with the time it was queued with, whatever the clock shows when it is sent.
\<close>

theorem queued_reading_keeps_enqueue_time:
  fixes s :: "'v reading daemon" and inp :: iteration_input and cfg :: config
  shows "(serial_is_open s \<and> influx_client s \<and> 0 < N \<and> int (length (data_queue s)) \<le> N
          \<and> serial_input inp = ReadLine line \<and> line \<noteq> []
          \<and> parse line = Inr (Some wd) \<and> wd \<noteq> [] \<longrightarrow>
            writes (trace (snd (run_iteration cfg N parse inp s)))
              = writes (trace s) @ [(wd, utcnow_send inp)]
          \<and> (\<not> (sendable wd \<and> write_result inp) \<longrightarrow>
               data_queue (snd (run_iteration cfg N parse inp s))
                 = (if queue_full N (data_queue s) then tl (data_queue s) else data_queue s)
                   @ [(wd, utcnow_queue inp)]))
       \<and> (0 < N \<and> data_queue s \<noteq> [] \<and> influx_client s \<longrightarrow>
            writes (trace (snd (data_sender_worker_cycle cfg N utcnow write_ok arrivals s)))
              = writes (trace s) @ take (min 10 (length (data_queue s))) (data_queue s))
       \<and> (influx_client s \<and> data_queue s \<noteq> [] \<longrightarrow>
            writes (trace (cleanup utcnow write_ok s))
              = writes (trace s) @ take (min 50 (length (data_queue s))) (data_queue s))"
proof (intro conjI impI)
  assume a: "serial_is_open s \<and> influx_client s \<and> 0 < N \<and> int (length (data_queue s)) \<le> N
          \<and> serial_input inp = ReadLine line \<and> line \<noteq> []
          \<and> parse line = Inr (Some wd) \<and> wd \<noteq> []"
  then have h: "serial_is_open s" "influx_client s \<or> 0 \<le> influx_retry_delay cfg"
    "serial_input inp = ReadLine line" "line \<noteq> []" "parse line = Inr (Some wd)" "wd \<noteq> []"
    and cl: "influx_client s" and N: "0 < N" and le: "int (length (data_queue s)) \<le> N"
    by simp_all
  let ?s1 = "s\<lparr>last_heartbeat := now_heartbeat inp\<rparr>"
  let ?s' = "snd (run_iteration cfg N parse inp s)"
  have r: "data_queue ?s' = data_queue (snd (read_and_relay N parse inp ?s1))"
    "filter is_send (trace ?s') = filter is_send (trace (snd (read_and_relay N parse inp ?s1)))"
    using run_iteration_parsed(1,2)[where parse=parse and line=line and N=N, OF h] cl by simp_all
  have c1: "influx_client ?s1" using cl by simp
  have q1: "data_queue ?s1 = data_queue s" "trace ?s1 = trace s" by simp_all
  have l1: "int (length (data_queue ?s1)) \<le> N" using le by simp
  show "writes (trace ?s') = writes (trace s) @ [(wd, utcnow_send inp)]"
  proof (cases "sendable wd \<and> write_result inp")
    case True
    have "filter is_send (trace ?s') = filter is_send (trace s) @ [Send wd (utcnow_send inp) True]"
      using read_and_relay_parsed_sent(3)[where parse=parse and line=line and N=N,
          OF h(3-6) c1 True] unfolding r q1 .
    from writes_from_filter[OF this] show ?thesis by simp
  next
    case False
    then have n: "\<not> (influx_client ?s1 \<and> sendable wd \<and> write_result inp)" by simp
    have "filter is_send (trace ?s') = filter is_send (trace s) @ [Send wd (utcnow_send inp) False]"
      using read_and_relay_parsed_queued(3)[where parse=parse and line=line,
          OF h(3-6) n N l1] c1 unfolding r q1 by simp
    from writes_from_filter[OF this] show ?thesis by simp
  qed
  {
    assume f: "\<not> (sendable wd \<and> write_result inp)"
    then have n: "\<not> (influx_client ?s1 \<and> sendable wd \<and> write_result inp)" by simp
    show "data_queue ?s'
            = (if queue_full N (data_queue s) then tl (data_queue s) else data_queue s)
              @ [(wd, utcnow_queue inp)]"
      using read_and_relay_parsed_queued(2)[where parse=parse and line=line,
          OF h(3-6) n N l1] unfolding r q1 .
  }
next
  assume a: "0 < N \<and> data_queue s \<noteq> [] \<and> influx_client s"
  then have N: "0 < N" and ne: "data_queue s \<noteq> []" and cl: "influx_client s" by simp_all
  show "writes (trace (snd (data_sender_worker_cycle cfg N utcnow write_ok arrivals s)))
          = writes (trace s) @ take (min 10 (length (data_queue s))) (data_queue s)"
    by (rule writes_from_sends[OF sender_cycle_result(2)[OF N ne cl]])
next
  assume a: "influx_client s \<and> data_queue s \<noteq> []"
  then have cl: "influx_client s" and ne: "data_queue s \<noteq> []" by simp_all
  show "writes (trace (cleanup utcnow write_ok s))
          = writes (trace s) @ take (min 50 (length (data_queue s))) (data_queue s)"
    by (rule writes_from_sends[OF cleanup_sends[OF cl ne]])
qed

theorem queued_reading_keeps_enqueue_time_witness:
  "serial_is_open (daemon_up :: string reading daemon)
   \<and> influx_client (daemon_up :: string reading daemon)
   \<and> 0 < data_queue_maxsize
   \<and> int (length (data_queue (daemon_up :: string reading daemon))) \<le> data_queue_maxsize
   \<and> serial_input (line_input\<lparr>write_result := False\<rparr>)
       = ReadLine ''T:22.6 H:50.1 P:1011.9 WS:0.00''
   \<and> WeatherDaemon_parse_weather_data decimal_literal ''T:22.6 H:50.1 P:1011.9 WS:0.00''
       = Inr (Some reading0)
   \<and> reading0 \<noteq> []
   \<and> utcnow_send (line_input\<lparr>write_result := False\<rparr>) = 12
   \<and> utcnow_queue (line_input\<lparr>write_result := False\<rparr>) = 13
   \<and> writes (trace (snd (run_iteration config0 data_queue_maxsize
        (WeatherDaemon_parse_weather_data decimal_literal) (line_input\<lparr>write_result := False\<rparr>)
        (daemon_up :: string reading daemon)))) = [(reading0, 12)]
   \<and> data_queue (snd (run_iteration config0 data_queue_maxsize
        (WeatherDaemon_parse_weather_data decimal_literal) (line_input\<lparr>write_result := False\<rparr>)
        (daemon_up :: string reading daemon))) = [(reading0, 13)]
   \<and> writes (trace (snd (data_sender_worker_cycle config0 data_queue_maxsize
        (\<lambda>k. 500) (\<lambda>k. True) []
        ((daemon_up :: string reading daemon)\<lparr>data_queue := [(reading0, 13)]\<rparr>))))
       = [(reading0, 13)]
   \<and> writes (trace (cleanup (\<lambda>k. 900) (\<lambda>k. True)
        ((daemon_up :: string reading daemon)\<lparr>data_queue := [(reading0, 13)]\<rparr>)))
       = [(reading0, 13)]"
proof -
  let ?s = "daemon_up :: string reading daemon"
  let ?u = "(daemon_up :: string reading daemon)\<lparr>data_queue := [(reading0, 13)]\<rparr>"
  let ?inp = "line_input\<lparr>write_result := False\<rparr>"
  let ?line = "''T:22.6 H:50.1 P:1011.9 WS:0.00''"
  let ?parse = "WeatherDaemon_parse_weather_data decimal_literal :: string \<Rightarrow> py_exn + string reading option"
  have h: "serial_is_open ?s" "influx_client ?s" "0 < data_queue_maxsize"
    "int (length (data_queue ?s)) \<le> data_queue_maxsize"
    by (simp_all add: daemon_up_def daemon0_def serial_is_open_def data_queue_maxsize_def)
  have i: "serial_input ?inp = ReadLine ?line" "utcnow_send ?inp = 12" "utcnow_queue ?inp = 13"
    "\<not> write_result ?inp"
    by (simp_all add: line_input_def idle_input_def)
  have w: "reading0 \<noteq> []" by (simp add: reading0_def)
  have q: "data_queue ?s = []" "trace ?s = []"
    "\<not> queue_full data_queue_maxsize (data_queue ?s)"
    by (simp_all add: daemon_up_def daemon0_def queue_full_def)
  have u: "influx_client ?u" "data_queue ?u \<noteq> []" "trace ?u = []"
    "take (min 10 (length (data_queue ?u))) (data_queue ?u) = [(reading0, 13)]"
    "take (min 50 (length (data_queue ?u))) (data_queue ?u) = [(reading0, 13)]"
    by (simp_all add: daemon_up_def daemon0_def)
  note a = queued_reading_keeps_enqueue_time[where parse="?parse" and line="?line" and s="?s"
      and cfg=config0 and inp="?inp" and N=data_queue_maxsize and wd=reading0]
  note b = queued_reading_keeps_enqueue_time[where s="?u" and cfg=config0
      and N=data_queue_maxsize and utcnow="\<lambda>k. 500" and write_ok="\<lambda>k. True" and arrivals="[]"]
  note c = queued_reading_keeps_enqueue_time[where s="?u" and utcnow="\<lambda>k. 900"
      and write_ok="\<lambda>k. True"]
  have 1: "writes (trace (snd (run_iteration config0 data_queue_maxsize ?parse ?inp ?s)))
             = [(reading0, 12)]"
    "data_queue (snd (run_iteration config0 data_queue_maxsize ?parse ?inp ?s)) = [(reading0, 13)]"
    using a h i w line0_parsed q by (simp_all add: writes_def)
  have 2: "writes (trace (snd (data_sender_worker_cycle config0 data_queue_maxsize
             (\<lambda>k. 500) (\<lambda>k. True) [] ?u))) = [(reading0, 13)]"
    using b h(3) u by (simp add: writes_def)
  have 3: "writes (trace (cleanup (\<lambda>k. 900) (\<lambda>k. True) ?u)) = [(reading0, 13)]"
    using c u by (simp add: writes_def)
  show ?thesis using h i(1-3) w line0_parsed 1 2 3 by simp
qed

text \<open>The inner \<^verbatim>\<open>try\<close> with its handlers, by what its statements do.\<close>

lemma read_serial_none:
  "read_and_relay N parse inp s = (None, s4) \<Longrightarrow> read_serial cfg N parse inp s = (None, s4)"
  by (simp add: read_serial_def)

lemma read_serial_decode:
  "read_and_relay N parse inp s = (Some UnicodeDecodeError, s4) \<Longrightarrow>
   read_serial cfg N parse inp s
     = (None, emit [Log WARNING DecodeError]
                (s4\<lparr>consecutive_errors := consecutive_errors s4 + 1\<rparr>))"
  by (simp add: read_serial_def)

lemma read_serial_other:
  "read_and_relay N parse inp s = (Some e, s4) \<Longrightarrow> e \<noteq> SerialException \<Longrightarrow>
   e \<noteq> UnicodeDecodeError \<Longrightarrow> read_serial cfg N parse inp s = (Some e, s4)"
  by (simp add: read_serial_def)

lemma read_serial_serial:
  assumes rr: "read_and_relay N parse inp s = (Some SerialException, s4)"
    and d: "0 \<le> serial_retry_delay cfg"
  shows "fst (read_serial cfg N parse inp s) = None"
    and "consecutive_errors (snd (read_serial cfg N parse inp s)) = consecutive_errors s4 + 1"
    and "exited (snd (read_serial cfg N parse inp s)) = exited s4"
proof -
  let ?s2 = "emit [Log ERROR SerialError] (s4\<lparr>consecutive_errors := consecutive_errors s4 + 1\<rparr>)"
  let ?p = "connect_serial cfg (serial_recover inp) ?s2"
  obtain ok where ok: "fst ?p = Inr ok"
    using connect_serial_loop_returns[OF d, of "serial_recover inp" 0 ?s2]
    unfolding connect_serial_def by blast
  obtain s3 where p: "?p = (Inr ok, s3)" using ok by (cases ?p) simp
  have f: "consecutive_errors s3 = consecutive_errors s4 + 1" "exited s3 = exited s4"
    using connect_serial_fields(7,2)[of cfg "serial_recover inp" ?s2] unfolding p by simp_all
  have r: "read_serial cfg N parse inp s
             = (if ok then (None, s3)
                else (None, emit [Log ERROR ReconnectFailed, Sleep (serial_retry_delay cfg)] s3))"
    using d by (simp add: read_serial_def rr Let_def p py_sleep_def)
  show "fst (read_serial cfg N parse inp s) = None" by (simp add: r)
  show "consecutive_errors (snd (read_serial cfg N parse inp s)) = consecutive_errors s4 + 1"
    by (simp add: r f)
  show "exited (snd (read_serial cfg N parse inp s)) = exited s4"
    by (simp add: r f)
qed

text \<open>What follows the read in a pass that starts with both connections up.\<close>

lemma run_iteration_checked:
  fixes s :: "'v reading daemon" and inp :: iteration_input and cfg :: config
  assumes opn: "serial_is_open s" and cl: "influx_client s" and ri: "0 \<le> read_interval cfg"
    and rs: "read_serial cfg N parse inp (s\<lparr>last_heartbeat := now_heartbeat inp\<rparr>) = (None, s4)"
    and ex: "exited s4 = exited s"
  shows "after_check cfg (consecutive_errors s4) s (snd (run_iteration cfg N parse inp s))"
proof -
  have c: "influx_client s \<or> 0 \<le> influx_retry_delay cfg" using cl by simp
  have body: "iteration_body cfg N parse inp s = check_consecutive_errors cfg s4"
    using iteration_body_open(1)[where inp=inp and N=N and parse=parse, OF opn c] cl rs by simp
  consider "consecutive_errors s4 < max_consecutive_errors"
    | "max_consecutive_errors \<le> consecutive_errors s4" "restart_on_hang cfg"
    | "max_consecutive_errors \<le> consecutive_errors s4" "\<not> restart_on_hang cfg"
    by linarith
  then show ?thesis
  proof cases
    case 1
    have "run_iteration cfg N parse inp s = (None, emit [Sleep (read_interval cfg)] s4)"
      using ri by (simp add: run_iteration_def body check_consecutive_errors_below[OF 1] py_sleep_def)
    then show ?thesis using 1 ex by (simp add: after_check_def)
  next
    case 2
    have "run_iteration cfg N parse inp s
            = (None, (emit [Log ERROR (TooManyErrors (consecutive_errors s4)), Exit 1] s4)
                       \<lparr>exited := True\<rparr>)"
      by (simp add: run_iteration_def body check_consecutive_errors_restart[OF 2])
    then show ?thesis using 2 by (simp add: after_check_def)
  next
    case 3
    have "run_iteration cfg N parse inp s
            = (None, emit [Sleep (read_interval cfg)]
                       (emit [Log ERROR (TooManyErrors (consecutive_errors s4)), Sleep 60]
                          (s4\<lparr>consecutive_errors := 0\<rparr>)))"
      using ri by (simp add: run_iteration_def body check_consecutive_errors_reset[OF 3] py_sleep_def)
    then show ?thesis using 3 ex by (simp add: after_check_def)
  qed
qed

lemma run_iteration_unchecked:
  fixes s :: "'v reading daemon" and inp :: iteration_input and cfg :: config
  assumes opn: "serial_is_open s" and cl: "influx_client s"
    and rs: "read_serial cfg N parse inp (s\<lparr>last_heartbeat := now_heartbeat inp\<rparr>) = (Some e, s4)"
  shows "consecutive_errors (snd (run_iteration cfg N parse inp s)) = consecutive_errors s4 + 1"
    and "exited (snd (run_iteration cfg N parse inp s)) = exited s4"
proof -
  have c: "influx_client s \<or> 0 \<le> influx_retry_delay cfg" using cl by simp
  have body: "iteration_body cfg N parse inp s = (Some e, s4)"
    using iteration_body_open(1)[where inp=inp and N=N and parse=parse, OF opn c] cl rs by simp
  show "consecutive_errors (snd (run_iteration cfg N parse inp s)) = consecutive_errors s4 + 1"
    by (simp add: run_iteration_def body)
  show "exited (snd (run_iteration cfg N parse inp s)) = exited s4"
    by (simp add: run_iteration_def body)
qed




end
